theory Spec2Isabelle
  imports Main "HOL-Library.Multiset"
begin

section \<open>Data model (src/main.cpp, lines 28-85 and 108-111)\<close>

text \<open>
  The structs of the program as records. \<open>std::list\<close> is a HOL list, and an
  iterator or a reference into it is the position of its element. C++ \<open>int\<close> has 32
  bits. The model computes in the integers and checks the range where the program can
  leave it: chips are not bounded above, so the credit of a settlement can overflow,
  which is undefined behaviour (see \<open>setHnd\<close>). The other arithmetic stays in range at
  the states the program reaches: card values are at most 11 and a supply has 208
  cards, a wager taken from the chips is at most the chips, and a doubled wager is at
  most the chips before the bet. The field \<open>Card::value\<close> is named \<open>val\<close> and
  \<open>Player::id\<close> is named \<open>pid\<close>. The four suit strings of the source are the
  UTF-8 symbols for spades, hearts, diamonds and clubs; they are only ever copied and
  compared, and are written here with the letters S, H, D and C.
\<close>

record Card =
  rank :: string
  suit :: string
  val :: int

record Hand =
  cards :: "Card list"
  bet :: int
  isplit :: bool
  ddown :: bool

record Player =
  pid :: int
  name :: string
  chips :: int
  hands :: "Hand list"

section \<open>Scoring (calcScr, lines 123-157; is_nat, lines 160-163)\<close>

text \<open>The lambda given to \<open>std::accumulate\<close>: first = sum of non-ace values, second = number of aces.\<close>

definition accum :: "int \<times> int \<Rightarrow> Card \<Rightarrow> int \<times> int" where
  "accum acc c = (if rank c = ''A'' then (fst acc, snd acc + 1) else (fst acc + val c, snd acc))"

text \<open>The loop \<open>while (score > 21 && ace_cnt > 0) { score -= 10; ace_cnt--; }\<close>.\<close>

function adjust :: "int \<Rightarrow> int \<Rightarrow> int" where
  "adjust score ace_cnt =
     (if score > 21 \<and> ace_cnt > 0 then adjust (score - 10) (ace_cnt - 1) else score)"
  by pat_completeness auto
termination
  by (relation "measure (\<lambda>(score, ace_cnt). nat ace_cnt)") auto

declare adjust.simps [simp del]

definition calcScr :: "Hand \<Rightarrow> int" where
  "calcScr hand =
     (if cards hand = [] then 0
      else (let result = foldl accum (0, 0) (cards hand);
                initial = fst result;
                ace_cnt = snd result;
                score = initial + ace_cnt * 11
            in adjust score ace_cnt))"

definition is_nat :: "Hand \<Rightarrow> bool" where
  "is_nat hand = (calcScr hand = 21 \<and> length (cards hand) = 2 \<and> \<not> isplit hand)"

section \<open>The supply: deck and discard pile (lines 108-111, 165-251)\<close>

text \<open>
  The global containers. \<open>disPile\<close> is a \<open>std::stack\<close>: the head of the list is its
  top. \<open>playQue\<close> holds pointers to the players of the round's list, here their
  positions in that list.

  \<open>shufDk\<close> builds a fresh \<open>std::mt19937\<close> from the system clock whenever it
  shuffles. The clock and the generator are inputs of the program: \<open>rnd n\<close> is the
  sequence of numbers that the \<open>n\<close>-th generator returns (\<open>rnd n k\<close> is its call
  number \<open>k\<close>), and the field \<open>nshuf\<close>, which the source does not have, counts the
  generators built so far.
\<close>

record Globals =
  deck :: "Card list"
  disPile :: "Card list"
  playQue :: "nat list"
  nshuf :: nat

text \<open>\<open>CRDVALS\<close> in the order in which \<open>std::map\<close> iterates: by key.\<close>

definition CRDVALS :: "(string \<times> int) list" where
  "CRDVALS = [(''10'', 10), (''2'', 2), (''3'', 3), (''4'', 4), (''5'', 5), (''6'', 6),
              (''7'', 7), (''8'', 8), (''9'', 9), (''A'', 11), (''J'', 10), (''K'', 10),
              (''Q'', 10)]"

definition SUITS :: "string list" where
  "SUITS = [''S'', ''H'', ''D'', ''C'']"

definition oneDeck :: "Card list" where
  "oneDeck = concat (map (\<lambda>r_pair. map (\<lambda>s. \<lparr>rank = fst r_pair, suit = s, val = snd r_pair\<rparr>) SUITS)
                      CRDVALS)"

definition createDk :: "int \<Rightarrow> Globals \<Rightarrow> Globals" where
  "createDk num_dk G = G\<lparr>deck := concat (replicate (nat num_dk) oneDeck), disPile := []\<rparr>"

text \<open>
  The loop of \<open>shufDk\<close>: iteration \<open>i\<close> makes the calls number \<open>2 * i\<close> and
  \<open>2 * i + 1\<close> of the generator \<open>g\<close>; \<open>n\<close> is the size taken before the loop.
\<close>

function shufLoop :: "(nat \<Rightarrow> nat) \<Rightarrow> nat \<Rightarrow> nat \<Rightarrow> Card list \<Rightarrow> Card list" where
  "shufLoop g n i tmpDk =
     (if i < n * 2 then
        (let pos = g (2 * i) mod n;
             c = tmpDk ! pos;
             erased = take pos tmpDk @ drop (Suc pos) tmpDk;
             trgPos = g (2 * i + 1) mod n;
             inserted = take trgPos erased @ [c] @ drop trgPos erased
         in shufLoop g n (i + 1) inserted)
      else tmpDk)"
  by pat_completeness auto
termination
  by (relation "measure (\<lambda>(g, n, i, tmpDk). n * 2 - i)") auto

declare shufLoop.simps [simp del]

definition shufDk :: "(nat \<Rightarrow> nat \<Rightarrow> nat) \<Rightarrow> Globals \<Rightarrow> Globals" where
  "shufDk rnd G =
     (if deck G = [] then G
      else G\<lparr>deck := shufLoop (rnd (nshuf G)) (length (deck G)) 0 (deck G),
             nshuf := nshuf G + 1\<rparr>)"

text \<open>
  The ways in which a run does not go on: \<open>SupplyExhausted\<close> is the
  \<open>std::runtime_error\<close> of \<open>dealCrd\<close>, \<open>InputPending\<close> is a read beyond the given
  input (see \<open>hdlPlay\<close>), and \<open>Undefined\<close> is undefined behaviour of C++: the
  dereference of \<open>end()\<close> in \<open>playSplt\<close>, and signed overflow or a conversion out
  of range in \<open>setHnd\<close>. After it the language says nothing about the run.
\<close>

datatype error = SupplyExhausted | InputPending | Undefined

text \<open>The loop of \<open>dealCrd\<close> that pops the whole discard pile onto the back of the deck.\<close>

definition refill :: "Globals \<Rightarrow> Globals" where
  "refill G = G\<lparr>deck := deck G @ disPile G, disPile := []\<rparr>"

definition dealCrd :: "(nat \<Rightarrow> nat \<Rightarrow> nat) \<Rightarrow> Globals \<Rightarrow> Card list \<Rightarrow> error + (Globals \<times> Card list)" where
  "dealCrd rnd G trgLst =
     (let G1 = (if deck G = [] then shufDk rnd (refill G) else G)
      in if deck G1 = [] then Inl SupplyExhausted
         else Inr (G1\<lparr>deck := tl (deck G1)\<rparr>, trgLst @ [hd (deck G1)]))"

definition discHnd :: "Globals \<Rightarrow> Hand \<Rightarrow> Globals \<times> Hand" where
  "discHnd G hand =
     (G\<lparr>disPile := foldl (\<lambda>st c. c # st) (disPile G) (cards hand)\<rparr>,
      hand\<lparr>cards := [], bet := 0\<rparr>)"

section \<open>Player actions (lines 296-382)\<close>

definition playHit :: "(nat \<Rightarrow> nat \<Rightarrow> nat) \<Rightarrow> Globals \<Rightarrow> Hand \<Rightarrow> error + (Globals \<times> Hand)" where
  "playHit rnd G hand =
     (case dealCrd rnd G (cards hand) of
        Inl e \<Rightarrow> Inl e
      | Inr (G', cs) \<Rightarrow> Inr (G', hand\<lparr>cards := cs\<rparr>))"

text \<open>
  \<open>playDD\<close> gets a reference to a hand of the player's list, \<open>playSplt\<close> a
  reference to an iterator \<open>curIt\<close> into that list, which it moves; both are
  positions in \<open>hands p\<close>, and \<open>playSplt\<close> returns the iterator with the state.
  \<open>std::list\<close> keeps iterators and references valid across an insertion.

  Lines 339-341: \<open>curIt++\<close> moves to the successor of the original hand (or to
  \<open>end()\<close>), \<open>insert\<close> puts the new hand before that position, so right after the
  original hand, and \<open>curIt--\<close> moves back by one element: onto the new hand. In
  the positions of the new list the original hand is at \<open>curIt\<close> and the iterator at
  \<open>curIt + 1\<close>. Line 347 draws into the original hand through the reference
  \<open>origHnd\<close>. Lines 350-352: \<open>curIt++\<close> moves to the successor of the new hand,
  \<open>curIt->cards\<close> is the hand there, or the dereference of \<open>end()\<close> when the new
  hand is the last of the list, and \<open>curIt--\<close> moves back onto the new hand. The
  dereference of \<open>end()\<close> is undefined whatever \<open>dealCrd\<close> then does with the
  reference.
\<close>

definition playSplt :: "(nat \<Rightarrow> nat \<Rightarrow> nat) \<Rightarrow> Globals \<Rightarrow> Player \<Rightarrow> nat
    \<Rightarrow> error + (Globals \<times> Player \<times> nat)" where
  "playSplt rnd G p curIt =
     (let origHnd = hands p ! curIt in
      if length (cards origHnd) \<noteq> 2 \<or> rank (hd (cards origHnd)) \<noteq> rank (last (cards origHnd))
      then Inr (G, p, curIt)
      else if chips p < bet origHnd then Inr (G, p, curIt)
      else
        (let newHnd = \<lparr>cards = [cards origHnd ! 1], bet = bet origHnd, isplit = True, ddown = False\<rparr>;
             origHnd1 = origHnd\<lparr>cards := [hd (cards origHnd)]\<rparr>;
             hands1 = take (curIt + 1) ((hands p)[curIt := origHnd1]) @ [newHnd] @ drop (curIt + 1) (hands p);
             newIt = curIt + 1;
             p1 = p\<lparr>hands := hands1, chips := chips p - bet newHnd\<rparr>
         in case dealCrd rnd G (cards (hands p1 ! curIt)) of
              Inl e \<Rightarrow> Inl e
            | Inr (G2, cs) \<Rightarrow>
                (let p2 = p1\<lparr>hands := (hands p1)[curIt := (hands p1 ! curIt)\<lparr>cards := cs\<rparr>]\<rparr>;
                     nextIt = newIt + 1
                 in if nextIt \<ge> length (hands p2) then Inl Undefined
                    else
                      (case dealCrd rnd G2 (cards (hands p2 ! nextIt)) of
                         Inl e \<Rightarrow> Inl e
                       | Inr (G3, cs') \<Rightarrow>
                           Inr (G3, p2\<lparr>hands := (hands p2)[nextIt := (hands p2 ! nextIt)\<lparr>cards := cs'\<rparr>]\<rparr>,
                                newIt)))))"

definition playDD :: "(nat \<Rightarrow> nat \<Rightarrow> nat) \<Rightarrow> Globals \<Rightarrow> Player \<Rightarrow> nat \<Rightarrow> error + (Globals \<times> Player)" where
  "playDD rnd G p it =
     (let hand = hands p ! it in
      if length (cards hand) \<noteq> 2 then Inr (G, p)
      else if chips p < bet hand then Inr (G, p)
      else
        (let p1 = p\<lparr>chips := chips p - bet hand\<rparr>;
             hand1 = hand\<lparr>bet := bet hand * 2, ddown := True\<rparr>
         in case playHit rnd G hand1 of
              Inl e \<Rightarrow> Inl e
            | Inr (G', hand2) \<Rightarrow> Inr (G', p1\<lparr>hands := (hands p1)[it := hand2]\<rparr>)))"

section \<open>Settlement of one hand (setHnd, lines 387-433)\<close>

text \<open>
  The range of \<open>int\<close>. \<open>int32 x\<close> is the result of an \<open>int\<close> operation whose
  mathematical value is \<open>x\<close>: the value itself in the range, and undefined
  behaviour outside of it.
\<close>

definition INT_MAX :: int where
  "INT_MAX = 2147483647"

definition INT_MIN :: int where
  "INT_MIN = - 2147483648"

definition int32 :: "int \<Rightarrow> error + int" where
  "int32 x = (if INT_MIN \<le> x \<and> x \<le> INT_MAX then Inr x else Inl Undefined)"

text \<open>
  \<open>static_cast<int>(hand.bet * 1.5)\<close>: the product is formed in \<open>double\<close>, where it is
  exact for every 32-bit \<open>int\<close>, and the cast drops the fraction (rounds toward zero);
  the behaviour is undefined when the result is outside the range of \<open>int\<close>.
\<close>

definition winAmt_of :: "int \<Rightarrow> error + int" where
  "winAmt_of b = int32 (if 0 \<le> b then (b * 3) div 2 else - ((- b * 3) div 2))"

text \<open>\<open>p.chips += amt\<close>, where \<open>amt\<close> is the result of the expression on the right.\<close>

definition addChips :: "Player \<Rightarrow> error + int \<Rightarrow> error + Player" where
  "addChips p amt =
     (case amt of
        Inl e \<Rightarrow> Inl e
      | Inr a \<Rightarrow> (case int32 (chips p + a) of Inl e \<Rightarrow> Inl e | Inr c \<Rightarrow> Inr (p\<lparr>chips := c\<rparr>)))"

definition setHnd :: "Globals \<Rightarrow> Player \<Rightarrow> nat \<Rightarrow> Hand \<Rightarrow> error + (Globals \<times> Player)" where
  "setHnd G p i dlHnd =
     (let hand = hands p ! i;
          p_score = calcScr hand;
          d_score = calcScr dlHnd;
          r = (if p_score > 21 then Inr p
               else if is_nat hand \<and> is_nat dlHnd then addChips p (Inr (bet hand))
               else if is_nat hand then
                 (case winAmt_of (bet hand) of
                    Inl e \<Rightarrow> Inl e
                  | Inr winAmt \<Rightarrow> addChips p (int32 (bet hand + winAmt)))
               else if d_score > 21 then addChips p (int32 (bet hand * 2))
               else if is_nat dlHnd then Inr p
               else if p_score > d_score then addChips p (int32 (bet hand * 2))
               else if p_score < d_score then Inr p
               else addChips p (Inr (bet hand)))
      in case r of
           Inl e \<Rightarrow> Inl e
         | Inr p1 \<Rightarrow>
             (case discHnd G hand of
                (G', hand') \<Rightarrow> Inr (G', p1\<lparr>hands := (hands p1)[i := hand']\<rparr>)))"

section \<open>The decision phase of a player (hdlPlay, lines 439-535)\<close>

text \<open>
  The input. Every read of the program is followed by \<open>clear_in\<close>, which drops the
  rest of the line, so the standard input is the list of the tokens that the reads
  return: \<open>string\<close> tokens for the reads of \<open>choice\<close>, and \<open>int\<close> values for the
  reads of \<open>betAmt\<close>. A run is modelled on a finite prefix of the input: where the
  program would read beyond it, the model stops with \<open>InputPending\<close>.
\<close>

definition toupper :: "char \<Rightarrow> char" where
  "toupper ch = (let n = (of_char ch :: nat) in if 97 \<le> n \<and> n \<le> 122 then char_of (n - 32) else ch)"

text \<open>The locals \<open>canSplt\<close> and \<open>canDbl\<close> of \<open>hdlPlay\<close> (lines 490-491).\<close>

definition canSplt :: "Hand \<Rightarrow> bool" where
  "canSplt curHnd = (length (cards curHnd) = 2
                     \<and> rank (hd (cards curHnd)) = rank (last (cards curHnd))
                     \<and> \<not> isplit curHnd)"

definition canDbl :: "Player \<Rightarrow> Hand \<Rightarrow> bool" where
  "canDbl p curHnd = (length (cards curHnd) = 2 \<and> chips p \<ge> bet curHnd)"

text \<open>
  The inner loop \<open>while (!done)\<close> on the hand \<open>curHnd\<close> at position \<open>it\<close>. The
  result holds the rest of the input, the state, the iterator \<open>it\<close>, which only
  \<open>playSplt\<close> moves, and the flag \<open>split\<close>.
\<close>

fun playHand :: "(nat \<Rightarrow> nat \<Rightarrow> nat) \<Rightarrow> string list \<Rightarrow> Globals \<Rightarrow> Player \<Rightarrow> nat
    \<Rightarrow> error + (string list \<times> Globals \<times> Player \<times> nat \<times> bool)" where
  "playHand rnd inp G p it =
     (let curHnd = hands p ! it;
          score = calcScr curHnd
      in if score > 21 then Inr (inp, G, p, it, False)
         else if score = 21 then Inr (inp, G, p, it, False)
         else
           (case inp of
              [] \<Rightarrow> Inl InputPending
            | raw # rest \<Rightarrow>
                (let choice = map toupper raw
                 in if choice = ''H'' then
                      (case playHit rnd G curHnd of
                         Inl e \<Rightarrow> Inl e
                       | Inr (G', hand') \<Rightarrow> playHand rnd rest G' (p\<lparr>hands := (hands p)[it := hand']\<rparr>) it)
                    else if choice = ''S'' then Inr (rest, G, p, it, False)
                    else if choice = ''D'' \<and> canDbl p curHnd then
                      (case playDD rnd G p it of
                         Inl e \<Rightarrow> Inl e
                       | Inr (G', p') \<Rightarrow> Inr (rest, G', p', it, False))
                    else if choice = ''P'' \<and> canSplt curHnd then
                      (case playSplt rnd G p it of
                         Inl e \<Rightarrow> Inl e
                       | Inr (G', p', it') \<Rightarrow> Inr (rest, G', p', it', True))
                    else playHand rnd rest G p it)))"

declare playHand.simps [simp del]

subsection \<open>The shuffle permutes the deck, and a draw takes one card from the supply\<close>

text \<open>These facts give the termination of the dealer's loop: every draw shrinks the supply.\<close>

lemma shufLoop_mset:
  "length tmpDk = n \<Longrightarrow> mset (shufLoop g n i tmpDk) = mset tmpDk"
proof (induction g n i tmpDk rule: shufLoop.induct)
  case (1 g n i tmpDk)
  show ?case
  proof (cases "i < n * 2")
    case False
    then show ?thesis by (subst shufLoop.simps) simp
  next
    case True
    define pos where "pos = g (2 * i) mod n"
    define erased where "erased = take pos tmpDk @ drop (Suc pos) tmpDk"
    define trgPos where "trgPos = g (2 * i + 1) mod n"
    define inserted where "inserted = take trgPos erased @ [tmpDk ! pos] @ drop trgPos erased"
    from True have n0: "0 < n" by simp
    then have pos: "pos < length tmpDk" using "1.prems" by (simp add: pos_def)
    have split: "tmpDk = take pos tmpDk @ tmpDk ! pos # drop (Suc pos) tmpDk"
      using pos by (rule id_take_nth_drop)
    have "mset (take pos tmpDk @ tmpDk ! pos # drop (Suc pos) tmpDk)
          = add_mset (tmpDk ! pos) (mset erased)"
      by (simp add: erased_def)
    then have a: "mset tmpDk = add_mset (tmpDk ! pos) (mset erased)"
      using split by simp
    have "mset (take trgPos erased) + mset (drop trgPos erased) = mset erased"
      by (simp flip: mset_append)
    then have b: "mset inserted = add_mset (tmpDk ! pos) (mset erased)"
      unfolding inserted_def by simp
    from a b have m: "mset inserted = mset tmpDk" by simp
    from m have len: "length inserted = n" using "1.prems" by (metis size_mset)
    have "shufLoop g n i tmpDk = shufLoop g n (i + 1) inserted"
      by (subst shufLoop.simps) (simp add: True Let_def pos_def erased_def trgPos_def inserted_def)
    also have "mset \<dots> = mset inserted"
      by (rule "1.IH" [OF True refl refl refl refl refl,
            folded pos_def, folded erased_def, folded trgPos_def, folded inserted_def, OF len])
    finally show ?thesis using m by simp
  qed
qed

lemma shufDk_mset [simp]: "mset (deck (shufDk rnd G)) = mset (deck G)"
  by (simp add: shufDk_def shufLoop_mset)

lemma shufDk_disPile [simp]: "disPile (shufDk rnd G) = disPile G"
  by (simp add: shufDk_def)

lemma shufDk_length [simp]: "length (deck (shufDk rnd G)) = length (deck G)"
  by (metis shufDk_mset size_mset)

lemma shufDk_empty [simp]: "deck (shufDk rnd G) = [] \<longleftrightarrow> deck G = []"
  by (metis shufDk_length length_0_conv)

lemma dealCrd_Inr:
  assumes "dealCrd rnd G trgLst = Inr (G', cs)"
  shows "\<exists>d. cs = trgLst @ [d]
           \<and> add_mset d (mset (deck G') + mset (disPile G')) = mset (deck G) + mset (disPile G)"
proof (cases "deck G = []")
  case False
  with assms show ?thesis
    by (cases "deck G") (auto simp: dealCrd_def)
next
  case True
  with assms have ne: "deck (shufDk rnd (refill G)) \<noteq> []"
    and G': "G' = (shufDk rnd (refill G))\<lparr>deck := tl (deck (shufDk rnd (refill G)))\<rparr>"
    and cs: "cs = trgLst @ [hd (deck (shufDk rnd (refill G)))]"
    by (auto simp: dealCrd_def Let_def split: if_splits)
  have "add_mset (hd (deck (shufDk rnd (refill G)))) (mset (tl (deck (shufDk rnd (refill G)))))
        = mset (deck (shufDk rnd (refill G)))"
    using ne by (cases "deck (shufDk rnd (refill G))") simp_all
  then show ?thesis using True G' cs by (simp add: refill_def)
qed

lemma dealCrd_count:
  assumes "dealCrd rnd G trgLst = Inr (G', cs)"
  shows "Suc (length (deck G') + length (disPile G')) = length (deck G) + length (disPile G)"
proof -
  from dealCrd_Inr [OF assms] obtain d where
    "add_mset d (mset (deck G') + mset (disPile G')) = mset (deck G) + mset (disPile G)" by blast
  then have "size (add_mset d (mset (deck G') + mset (disPile G'))) = size (mset (deck G) + mset (disPile G))"
    by simp
  then show ?thesis by simp
qed

subsection \<open>The dealer's loop\<close>

text \<open>The dealer's loop \<open>while (d_score < 17)\<close> (lines 636-643).\<close>

function dealerLoop :: "(nat \<Rightarrow> nat \<Rightarrow> nat) \<Rightarrow> Globals \<Rightarrow> Hand \<Rightarrow> error + (Globals \<times> Hand)" where
  "dealerLoop rnd G dealrH =
     (if calcScr dealrH < 17 then
        (case dealCrd rnd G (cards dealrH) of
           Inl e \<Rightarrow> Inl e
         | Inr (G', cs) \<Rightarrow> dealerLoop rnd G' (dealrH\<lparr>cards := cs\<rparr>))
      else Inr (G, dealrH))"
  by pat_completeness auto
termination
proof (relation "measure (\<lambda>(rnd, G, dealrH). length (deck G) + length (disPile G))")
  show "wf (measure (\<lambda>(rnd, G, dealrH). length (deck G) + length (disPile G)))" by simp
next
  fix rnd G and dealrH :: Hand and x2 G' cs
  assume "dealCrd rnd G (cards dealrH) = Inr x2" and "(G', cs) = x2"
  then have "dealCrd rnd G (cards dealrH) = Inr (G', cs)" by simp
  from dealCrd_count [OF this]
  show "((rnd, G', dealrH\<lparr>cards := cs\<rparr>), rnd, G, dealrH)
        \<in> measure (\<lambda>(rnd, G, dealrH). length (deck G) + length (disPile G))"
    by simp
qed

declare dealerLoop.simps [simp del]

subsection \<open>The loop over the hands of a player\<close>

text \<open>
  The inner loop reads input at every turn but the last, and only a split changes the
  number of hands: this gives the termination of the outer loop.
\<close>

lemma playHit_hands:
  "playHit rnd G h = Inr (G', h') \<Longrightarrow> bet h' = bet h \<and> isplit h' = isplit h \<and> ddown h' = ddown h"
  by (auto simp: playHit_def split: sum.splits)

lemma playHand_over:
  "21 \<le> calcScr (hands p ! it) \<Longrightarrow> playHand rnd inp G p it = Inr (inp, G, p, it, False)"
  by (subst playHand.simps) (simp add: Let_def)

lemma playHand_Nil:
  "calcScr (hands p ! it) < 21 \<Longrightarrow> playHand rnd [] G p it = Inl InputPending"
  by (subst playHand.simps) (simp add: Let_def)

lemma playHand_Cons:
  "calcScr (hands p ! it) < 21 \<Longrightarrow>
   playHand rnd (raw # rest) G p it =
     (if map toupper raw = ''H'' then
        (case playHit rnd G (hands p ! it) of
           Inl e \<Rightarrow> Inl e
         | Inr (G', hand') \<Rightarrow> playHand rnd rest G' (p\<lparr>hands := (hands p)[it := hand']\<rparr>) it)
      else if map toupper raw = ''S'' then Inr (rest, G, p, it, False)
      else if map toupper raw = ''D'' \<and> canDbl p (hands p ! it) then
        (case playDD rnd G p it of
           Inl e \<Rightarrow> Inl e
         | Inr (G', p') \<Rightarrow> Inr (rest, G', p', it, False))
      else if map toupper raw = ''P'' \<and> canSplt (hands p ! it) then
        (case playSplt rnd G p it of
           Inl e \<Rightarrow> Inl e
         | Inr (G', p', it') \<Rightarrow> Inr (rest, G', p', it', True))
      else playHand rnd rest G p it)"
  by (subst playHand.simps) (simp add: Let_def)

lemma playDD_length:
  "playDD rnd G p it = Inr (G', p') \<Longrightarrow> length (hands p') = length (hands p)"
  by (auto simp: playDD_def Let_def split: if_splits sum.splits)

lemma playHand_progress:
  "playHand rnd inp G p it = Inr (inp', G', p', it', split) \<Longrightarrow>
     length inp' \<le> length inp \<and> (split \<longrightarrow> length inp' < length inp)
     \<and> (\<not> split \<longrightarrow> length (hands p') = length (hands p) \<and> it' = it)"
proof (induction inp arbitrary: G p)
  case Nil
  show ?case
  proof (cases "calcScr (hands p ! it) < 21")
    case True
    with Nil.prems show ?thesis by (simp add: playHand_Nil)
  next
    case False
    with Nil.prems show ?thesis by (simp add: playHand_over)
  qed
next
  case (Cons raw rest)
  show ?case
  proof (cases "calcScr (hands p ! it) < 21")
    case False
    with Cons.prems show ?thesis by (simp add: playHand_over)
  next
    case True
    note eq = Cons.prems [unfolded playHand_Cons [OF True]]
    consider (H) "map toupper raw = ''H''"
      | (S) "map toupper raw = ''S''"
      | (D) "map toupper raw = ''D''" "canDbl p (hands p ! it)"
      | (P) "map toupper raw = ''P''" "canSplt (hands p ! it)"
      | (other) "map toupper raw \<noteq> ''H''" "map toupper raw \<noteq> ''S''"
          "\<not> (map toupper raw = ''D'' \<and> canDbl p (hands p ! it))"
          "\<not> (map toupper raw = ''P'' \<and> canSplt (hands p ! it))"
      by blast
    then show ?thesis
    proof cases
      case H
      with eq obtain G1 hand1 where
        "playHand rnd rest G1 (p\<lparr>hands := (hands p)[it := hand1]\<rparr>) it = Inr (inp', G', p', it', split)"
        by (auto split: sum.splits)
      from Cons.IH [OF this] show ?thesis by auto
    next
      case S
      with eq show ?thesis by auto
    next
      case D
      with eq show ?thesis by (auto split: sum.splits dest: playDD_length)
    next
      case P
      with eq show ?thesis by (auto split: sum.splits)
    next
      case other
      with eq have "playHand rnd rest G p it = Inr (inp', G', p', it', split)" by auto
      from Cons.IH [OF this] show ?thesis by auto
    qed
  qed
qed

text \<open>
  The outer loop of \<open>hdlPlay\<close> over the hands of the player; \<open>it\<close> is the iterator,
  and \<open>it = length (hands p)\<close> is \<open>p.hands.end()\<close>. After \<open>split = true\<close> the
  loop goes on at the iterator as \<open>playSplt\<close> has left it (lines 526-528), otherwise
  at the next hand (line 531).
\<close>

function hdlLoop :: "(nat \<Rightarrow> nat \<Rightarrow> nat) \<Rightarrow> string list \<Rightarrow> Globals \<Rightarrow> Player \<Rightarrow> nat
    \<Rightarrow> error + (string list \<times> Globals \<times> Player)" where
  "hdlLoop rnd inp G p it =
     (if it \<ge> length (hands p) then Inr (inp, G, p)
      else if ddown (hands p ! it) then hdlLoop rnd inp G p (it + 1)
      else if isplit (hands p ! it) \<and> length (cards (hands p ! it)) = 2
              \<and> rank (hd (cards (hands p ! it))) = ''A''
              \<and> rank (last (cards (hands p ! it))) = ''A''
           then hdlLoop rnd inp G p (it + 1)
      else
        (case playHand rnd inp G p it of
           Inl e \<Rightarrow> Inl e
         | Inr (inp', G', p', it', split) \<Rightarrow>
             if split then hdlLoop rnd inp' G' p' it'
             else hdlLoop rnd inp' G' p' (it' + 1)))"
  by pat_completeness auto
termination
proof (relation "measures [\<lambda>(rnd, inp, G, p, it). length inp,
                           \<lambda>(rnd, inp, G, p, it). length (hands p) - it]")
  fix rnd inp G and p :: Player and it x2 inp' y G' ya p' yb it' split
  assume a: "\<not> length (hands p) \<le> it"
    and r: "playHand rnd inp G p it = Inr x2" "(inp', y) = x2" "(G', ya) = y" "(p', yb) = ya"
      "(it', split) = yb"
  from r have e: "playHand rnd inp G p it = Inr (inp', G', p', it', split)" by simp
  note pr = playHand_progress [OF e]
  {
    assume split
    with pr show "((rnd, inp', G', p', it'), rnd, inp, G, p, it)
        \<in> measures [\<lambda>(rnd, inp, G, p, it). length inp,
                     \<lambda>(rnd, inp, G, p, it). length (hands p) - it]"
      by simp
  }
  {
    assume "\<not> split"
    with pr a show "((rnd, inp', G', p', it' + 1), rnd, inp, G, p, it)
        \<in> measures [\<lambda>(rnd, inp, G, p, it). length inp,
                     \<lambda>(rnd, inp, G, p, it). length (hands p) - it]"
      by auto
  }
qed auto

declare hdlLoop.simps [simp del]

definition hdlPlay :: "(nat \<Rightarrow> nat \<Rightarrow> nat) \<Rightarrow> string list \<Rightarrow> Globals \<Rightarrow> Player
    \<Rightarrow> error + (string list \<times> Globals \<times> Player)" where
  "hdlPlay rnd inp G p = hdlLoop rnd inp G p 0"

subsection \<open>The decision phase leaves the queue of players alone\<close>

text \<open>This gives the termination of the loop over the queue in \<open>playRnd\<close>.\<close>

lemma shufDk_playQue [simp]: "playQue (shufDk rnd G) = playQue G"
  by (simp add: shufDk_def)

lemma dealCrd_playQue: "dealCrd rnd G t = Inr (G', cs) \<Longrightarrow> playQue G' = playQue G"
  by (auto simp: dealCrd_def Let_def refill_def split: if_splits)

lemma playHit_playQue: "playHit rnd G h = Inr (G', h') \<Longrightarrow> playQue G' = playQue G"
  by (auto simp: playHit_def split: sum.splits dest: dealCrd_playQue)

lemma playDD_playQue: "playDD rnd G p it = Inr (G', p') \<Longrightarrow> playQue G' = playQue G"
  by (auto simp: playDD_def Let_def split: if_splits sum.splits dest: playHit_playQue)

lemma playSplt_playQue: "playSplt rnd G p it = Inr (G', p', it') \<Longrightarrow> playQue G' = playQue G"
  by (auto simp: playSplt_def Let_def split: if_splits sum.splits dest!: dealCrd_playQue)

lemma playHand_playQue:
  "playHand rnd inp G p it = Inr (inp', G', p', it', split) \<Longrightarrow> playQue G' = playQue G"
proof (induction inp arbitrary: G p)
  case Nil
  then show ?case
    by (cases "calcScr (hands p ! it) < 21") (simp_all add: playHand_Nil playHand_over)
next
  case (Cons raw rest)
  show ?case
  proof (cases "calcScr (hands p ! it) < 21")
    case False
    with Cons.prems show ?thesis by (simp add: playHand_over)
  next
    case True
    note eq = Cons.prems [unfolded playHand_Cons [OF True]]
    show ?thesis
      using eq Cons.IH
      by (auto split: if_splits sum.splits
            dest: playHit_playQue playDD_playQue playSplt_playQue)
  qed
qed

lemma hdlLoop_playQue:
  "hdlLoop rnd inp G p it = Inr (inp', G', p') \<Longrightarrow> playQue G' = playQue G"
proof (induction rnd inp G p it rule: hdlLoop.induct)
  case (1 rnd inp G p it)
  note eq = "1.prems" [unfolded hdlLoop.simps [of rnd inp G p it]]
  show ?case
  proof (cases "it \<ge> length (hands p)")
    case True
    with eq show ?thesis by simp
  next
    case False
    note nend = this
    show ?thesis
    proof (cases "ddown (hands p ! it)")
      case True
      with eq nend "1.IH"(1) show ?thesis by simp
    next
      case False
      note ndd = this
      show ?thesis
      proof (cases "isplit (hands p ! it) \<and> length (cards (hands p ! it)) = 2
              \<and> rank (hd (cards (hands p ! it))) = ''A''
              \<and> rank (last (cards (hands p ! it))) = ''A''")
        case True
        with eq nend ndd "1.IH"(2) show ?thesis by simp
      next
        case False
        note nas = this
        from eq nend ndd nas obtain inp1 G1 p1 it1 split where
          ph: "playHand rnd inp G p it = Inr (inp1, G1, p1, it1, split)"
          and rest: "(if split then hdlLoop rnd inp1 G1 p1 it1 else hdlLoop rnd inp1 G1 p1 (it1 + 1))
                     = Inr (inp', G', p')"
          by (auto split: sum.splits)
        have "playQue G' = playQue G1"
        proof (cases split)
          case True
          with rest "1.IH"(3) [OF nend ndd nas ph refl refl refl refl True] show ?thesis by simp
        next
          case False
          with rest "1.IH"(4) [OF nend ndd nas ph refl refl refl refl False] show ?thesis by simp
        qed
        with playHand_playQue [OF ph] show ?thesis by simp
      qed
    qed
  qed
qed

section \<open>A round (playRnd, lines 538-670)\<close>

text \<open>A default-constructed \<open>Hand\<close>, as \<open>emplace_back()\<close> makes it.\<close>

definition emptyHand :: Hand where
  "emptyHand = \<lparr>cards = [], bet = 0, isplit = False, ddown = False\<rparr>"

text \<open>Lines 546-550: the full reshuffle when fewer than 60 cards are left.\<close>

definition reshufCheck :: "(nat \<Rightarrow> nat \<Rightarrow> nat) \<Rightarrow> Globals \<Rightarrow> Globals" where
  "reshufCheck rnd G = (if length (deck G) < 60 then shufDk rnd (createDk 4 G) else G)"

text \<open>Lines 561-571: the prompt for a bet, repeated until the value read is valid.\<close>

fun readBet :: "int \<Rightarrow> int list \<Rightarrow> error + (int \<times> int list)" where
  "readBet limit [] = Inl InputPending"
| "readBet limit (betAmt # ints) =
     (if betAmt < 1 \<or> betAmt > limit then readBet limit ints else Inr (betAmt, ints))"

text \<open>
  Lines 560-577: the \<open>for_each\<close> over the players, \<open>i\<close> being the position of the
  player it has reached. The map \<open>initChp\<close> of lines 552-557 is never read and is left
  out.
\<close>

function placeBets :: "int list \<Rightarrow> Globals \<Rightarrow> Player list \<Rightarrow> nat
    \<Rightarrow> error + (int list \<times> Globals \<times> Player list)" where
  "placeBets ints G plyrs i =
     (if i \<ge> length plyrs then Inr (ints, G, plyrs)
      else
        (case readBet (chips (plyrs ! i)) ints of
           Inl e \<Rightarrow> Inl e
         | Inr (betAmt, ints') \<Rightarrow>
             (let p = plyrs ! i;
                  hs = hands p @ [emptyHand];
                  p' = p\<lparr>hands := hs[0 := (hs ! 0)\<lparr>bet := betAmt\<rparr>], chips := chips p - betAmt\<rparr>
              in placeBets ints' (G\<lparr>playQue := playQue G @ [i]\<rparr>) (plyrs[i := p']) (i + 1))))"
  by pat_completeness auto
termination
  by (relation "measure (\<lambda>(ints, G, plyrs, i). length plyrs - i)") auto

declare placeBets.simps [simp del]

text \<open>Lines 582-586 and 591-595: one card to the first hand of every player of the queue.\<close>

fun dealRound :: "(nat \<Rightarrow> nat \<Rightarrow> nat) \<Rightarrow> Globals \<Rightarrow> Player list \<Rightarrow> nat list
    \<Rightarrow> error + (Globals \<times> Player list)" where
  "dealRound rnd G plyrs [] = Inr (G, plyrs)"
| "dealRound rnd G plyrs (q # tempQ) =
     (let p = plyrs ! q in
      case dealCrd rnd G (cards (hands p ! 0)) of
        Inl e \<Rightarrow> Inl e
      | Inr (G', cs) \<Rightarrow>
          dealRound rnd G' (plyrs[q := p\<lparr>hands := (hands p)[0 := (hands p ! 0)\<lparr>cards := cs\<rparr>]\<rparr>]) tempQ)"

text \<open>Lines 588 and 597: one card to the dealer's hand \<open>dealr.hands.front()\<close>.\<close>

definition dealDealer :: "(nat \<Rightarrow> nat \<Rightarrow> nat) \<Rightarrow> Globals \<Rightarrow> Player \<Rightarrow> error + (Globals \<times> Player)" where
  "dealDealer rnd G dealr =
     (case dealCrd rnd G (cards (hands dealr ! 0)) of
        Inl e \<Rightarrow> Inl e
      | Inr (G', cs) \<Rightarrow> Inr (G', dealr\<lparr>hands := (hands dealr)[0 := (hands dealr ! 0)\<lparr>cards := cs\<rparr>]\<rparr>))"

definition initialDeal :: "(nat \<Rightarrow> nat \<Rightarrow> nat) \<Rightarrow> Globals \<Rightarrow> Player list \<Rightarrow> Player
    \<Rightarrow> error + (Globals \<times> Player list \<times> Player)" where
  "initialDeal rnd G plyrs dealr =
     (case dealRound rnd G plyrs (playQue G) of
        Inl e \<Rightarrow> Inl e
      | Inr (G1, plyrs1) \<Rightarrow>
     (case dealDealer rnd G1 dealr of
        Inl e \<Rightarrow> Inl e
      | Inr (G2, dealr2) \<Rightarrow>
     (case dealRound rnd G2 plyrs1 (playQue G2) of
        Inl e \<Rightarrow> Inl e
      | Inr (G3, plyrs3) \<Rightarrow>
     (case dealDealer rnd G3 dealr2 of
        Inl e \<Rightarrow> Inl e
      | Inr (G4, dealr4) \<Rightarrow> Inr (G4, plyrs3, dealr4)))))"

text \<open>Lines 613-623: the players of the queue take their turns, unless the dealer has a natural.\<close>

function actionPhase :: "(nat \<Rightarrow> nat \<Rightarrow> nat) \<Rightarrow> string list \<Rightarrow> Globals \<Rightarrow> Player list \<Rightarrow> bool
    \<Rightarrow> error + (string list \<times> Globals \<times> Player list)" where
  "actionPhase rnd inp G plyrs dealrNat =
     (case playQue G of
        [] \<Rightarrow> Inr (inp, G, plyrs)
      | q # rest \<Rightarrow>
          if \<not> dealrNat then
            (case hdlPlay rnd inp (G\<lparr>playQue := rest\<rparr>) (plyrs ! q) of
               Inl e \<Rightarrow> Inl e
             | Inr (inp', G', p') \<Rightarrow> actionPhase rnd inp' G' (plyrs[q := p']) dealrNat)
          else actionPhase rnd inp (G\<lparr>playQue := rest\<rparr>) plyrs dealrNat)"
  by pat_completeness auto
termination
proof (relation "measure (\<lambda>(rnd, inp, G, plyrs, dealrNat). length (playQue G))")
  fix rnd inp and G :: Globals and plyrs :: "Player list" and dealrNat q rest x2 inp' y G' p'
  assume q: "playQue G = q # rest"
    and r: "hdlPlay rnd inp (G\<lparr>playQue := rest\<rparr>) (plyrs ! q) = Inr x2" "(inp', y) = x2" "(G', p') = y"
  from r have "hdlLoop rnd inp (G\<lparr>playQue := rest\<rparr>) (plyrs ! q) 0 = Inr (inp', G', p')"
    by (simp add: hdlPlay_def)
  from hdlLoop_playQue [OF this] q
  show "((rnd, inp', G', plyrs[q := p'], dealrNat), rnd, inp, G, plyrs, dealrNat)
        \<in> measure (\<lambda>(rnd, inp, G, plyrs, dealrNat). length (playQue G))"
    by simp
qed auto

declare actionPhase.simps [simp del]

text \<open>Lines 630-645: the dealer's play.\<close>

definition dealerPlay :: "(nat \<Rightarrow> nat \<Rightarrow> nat) \<Rightarrow> Globals \<Rightarrow> Hand \<Rightarrow> bool \<Rightarrow> error + (Globals \<times> Hand)" where
  "dealerPlay rnd G dealrH dealrNat =
     (if \<not> dealrNat then dealerLoop rnd G dealrH else Inr (G, dealrH))"

text \<open>Lines 655-661: the body of the loop over the hands of a player at settlement.\<close>

definition settleHand :: "Globals \<Rightarrow> Player \<Rightarrow> nat \<Rightarrow> Hand \<Rightarrow> error + (Globals \<times> Player)" where
  "settleHand G p i dlHnd =
     (if bet (hands p ! i) > 0 then setHnd G p i dlHnd
      else (case discHnd G (hands p ! i) of
              (G', hand') \<Rightarrow> Inr (G', p\<lparr>hands := (hands p)[i := hand']\<rparr>)))"

text \<open>
  Lines 653-666: the hands of a player are settled one after the other (\<open>is\<close> are the
  positions still to come), then the empty hands are removed.
\<close>

fun settleHands :: "Globals \<Rightarrow> Player \<Rightarrow> Hand \<Rightarrow> nat list \<Rightarrow> error + (Globals \<times> Player)" where
  "settleHands G p dlHnd [] = Inr (G, p)"
| "settleHands G p dlHnd (i # is) =
     (case settleHand G p i dlHnd of
        Inl e \<Rightarrow> Inl e
      | Inr (G', p') \<Rightarrow> settleHands G' p' dlHnd is)"

definition settlePlayer :: "Globals \<Rightarrow> Player \<Rightarrow> Hand \<Rightarrow> error + (Globals \<times> Player)" where
  "settlePlayer G p dlHnd =
     (case settleHands G p dlHnd [0..<length (hands p)] of
        Inl e \<Rightarrow> Inl e
      | Inr (G', p') \<Rightarrow> Inr (G', p'\<lparr>hands := filter (\<lambda>h. cards h \<noteq> []) (hands p')\<rparr>))"

fun settleAll :: "Globals \<Rightarrow> Player list \<Rightarrow> Hand \<Rightarrow> error + (Globals \<times> Player list)" where
  "settleAll G [] dlHnd = Inr (G, [])"
| "settleAll G (p # ps) dlHnd =
     (case settlePlayer G p dlHnd of
        Inl e \<Rightarrow> Inl e
      | Inr (G', p') \<Rightarrow>
          (case settleAll G' ps dlHnd of
             Inl e \<Rightarrow> Inl e
           | Inr (G'', ps') \<Rightarrow> Inr (G'', p' # ps')))"

text \<open>
  Lines 538-645: the round up to the dealer's play. \<open>ints\<close> are the values that the
  reads of \<open>betAmt\<close> return and \<open>inp\<close> the tokens that the reads of \<open>choice\<close> return.
  The result holds the unread input, the state and the dealer's hand \<open>dealrH\<close>, which
  is \<open>dealr.hands.front()\<close>: the dealer has a hand when \<open>runGame\<close> calls \<open>playRnd\<close>.
\<close>

definition beforeSettle :: "(nat \<Rightarrow> nat \<Rightarrow> nat) \<Rightarrow> int list \<Rightarrow> string list \<Rightarrow> Globals \<Rightarrow> Player list
    \<Rightarrow> Player \<Rightarrow> error + (int list \<times> string list \<times> Globals \<times> Player list \<times> Player \<times> Hand)" where
  "beforeSettle rnd ints inp G plyrs dealr =
     (case placeBets ints (reshufCheck rnd G) plyrs 0 of
        Inl e \<Rightarrow> Inl e
      | Inr (ints', G2, plyrs2) \<Rightarrow>
     (case initialDeal rnd G2 plyrs2 dealr of
        Inl e \<Rightarrow> Inl e
      | Inr (G3, plyrs3, dealr3) \<Rightarrow>
     (let dealrH = hands dealr3 ! 0;
          dealrNat = is_nat dealrH
      in case actionPhase rnd inp G3 plyrs3 dealrNat of
           Inl e \<Rightarrow> Inl e
         | Inr (inp', G4, plyrs4) \<Rightarrow>
        (case dealerPlay rnd G4 dealrH dealrNat of
           Inl e \<Rightarrow> Inl e
         | Inr (G5, dealrH5) \<Rightarrow> Inr (ints', inp', G5, plyrs4, dealr3, dealrH5)))))"

text \<open>Lines 647-670: the settlement, and the discard of the dealer's hand.\<close>

definition finalSettle :: "Globals \<Rightarrow> Player list \<Rightarrow> Player \<Rightarrow> Hand
    \<Rightarrow> error + (Globals \<times> Player list \<times> Player)" where
  "finalSettle G plyrs dealr dealrH =
     (case settleAll G plyrs dealrH of
        Inl e \<Rightarrow> Inl e
      | Inr (G', plyrs') \<Rightarrow>
          (case discHnd G' dealrH of
             (G'', dealrH') \<Rightarrow> Inr (G'', plyrs', dealr\<lparr>hands := (hands dealr)[0 := dealrH']\<rparr>)))"

definition playRnd :: "(nat \<Rightarrow> nat \<Rightarrow> nat) \<Rightarrow> int list \<Rightarrow> string list \<Rightarrow> Globals \<Rightarrow> Player list
    \<Rightarrow> Player \<Rightarrow> error + (int list \<times> string list \<times> Globals \<times> Player list \<times> Player)" where
  "playRnd rnd ints inp G plyrs dealr =
     (case beforeSettle rnd ints inp G plyrs dealr of
        Inl e \<Rightarrow> Inl e
      | Inr (ints', inp', G5, plyrs4, dealr3, dealrH5) \<Rightarrow>
          (case finalSettle G5 plyrs4 dealr3 dealrH5 of
             Inl e \<Rightarrow> Inl e
           | Inr (G7, plyrs7, dealr7) \<Rightarrow> Inr (ints', inp', G7, plyrs7, dealr7)))"

section \<open>The body of the game loop up to the end of the round (runGame, lines 703-733)\<close>

text \<open>
  What one pass through the \<open>try\<close> block comes to: one of the two \<open>break\<close>s
  (\<open>GameOver\<close>, and \<open>CriticalError\<close> in the \<open>catch\<close>), a read beyond the given
  input, undefined behaviour, which is no exception and is not caught, or a round
  played to its end.
\<close>

datatype roundResult =
    GameOver
  | CriticalError
  | Waiting
  | UndefinedRun
  | Played "int list \<times> string list \<times> Globals \<times> Player list \<times> Player"

text \<open>Lines 706-712: players without chips leave the game.\<close>

definition dropBroke :: "Player list \<Rightarrow> Player list" where
  "dropBroke plyrs = filter (\<lambda>p. \<not> chips p < 1) plyrs"

text \<open>Lines 721-725: the dealer's hand is reset.\<close>

definition resetDealer :: "Globals \<Rightarrow> Player \<Rightarrow> Globals \<times> Player" where
  "resetDealer G dealr =
     (if hands dealr \<noteq> [] \<and> bet (hands dealr ! 0) > 0 then
        (case discHnd G (hands dealr ! 0) of
           (G', hand') \<Rightarrow> (G', dealr\<lparr>hands := (hands dealr)[0 := hand']\<rparr>))
      else if hands dealr = [] then (G, dealr\<lparr>hands := hands dealr @ [emptyHand]\<rparr>)
      else (G, dealr))"

text \<open>
  Lines 703-733: the \<open>try\<close> block and its \<open>catch\<close>. After \<open>Played\<close> the loop goes
  on to the summary and the prompt for another round.
\<close>

definition tryRound :: "(nat \<Rightarrow> nat \<Rightarrow> nat) \<Rightarrow> int list \<Rightarrow> string list \<Rightarrow> Globals \<Rightarrow> Player list
    \<Rightarrow> Player \<Rightarrow> roundResult" where
  "tryRound rnd ints inp G plyrs dealr =
     (let plyrs1 = dropBroke plyrs
      in if plyrs1 = [] then GameOver
         else
           (case resetDealer G dealr of
              (G1, dealr1) \<Rightarrow>
                (case playRnd rnd ints inp G1 plyrs1 dealr1 of
                   Inl SupplyExhausted \<Rightarrow> CriticalError
                 | Inl InputPending \<Rightarrow> Waiting
                 | Inl Undefined \<Rightarrow> UndefinedRun
                 | Inr st \<Rightarrow> Played st)))"

section \<open>Notions used in the statements\<close>


text \<open>
  The operations on the supply and the live hands \<open>hs\<close>: a draw into the hand at
  position \<open>i\<close> (an exception of \<open>dealCrd\<close> leaves the state as it is: deck and
  discard pile were empty), the discard of the whole hand at position \<open>i\<close>, and a
  reshuffle.
\<close>

datatype supplyOp = Draw nat | Discard nat | Reshuffle

fun applyOp :: "(nat \<Rightarrow> nat \<Rightarrow> nat) \<Rightarrow> Globals \<times> Hand list \<Rightarrow> supplyOp \<Rightarrow> Globals \<times> Hand list" where
  "applyOp rnd (G, hs) (Draw i) =
     (case dealCrd rnd G (cards (hs ! i)) of
        Inl e \<Rightarrow> (G, hs)
      | Inr (G', cs) \<Rightarrow> (G', hs[i := (hs ! i)\<lparr>cards := cs\<rparr>]))"
| "applyOp rnd (G, hs) (Discard i) =
     (case discHnd G (hs ! i) of (G', hand') \<Rightarrow> (G', hs[i := hand']))"
| "applyOp rnd (G, hs) Reshuffle = (shufDk rnd G, hs)"

fun opOk :: "nat \<Rightarrow> supplyOp \<Rightarrow> bool" where
  "opOk n (Draw i) = (i < n)"
| "opOk n (Discard i) = (i < n)"
| "opOk n Reshuffle = True"

definition allCards :: "Globals \<times> Hand list \<Rightarrow> Card multiset" where
  "allCards st = mset (deck (fst st)) + mset (disPile (fst st))
                 + sum_list (map (\<lambda>h. mset (cards h)) (snd st))"

definition totalCount :: "Globals \<times> Hand list \<Rightarrow> nat" where
  "totalCount st = length (deck (fst st)) + length (disPile (fst st))
                   + sum_list (map (\<lambda>h. length (cards h)) (snd st))"

text \<open>
  The program point at which \<open>hdlPlay\<close> prompts for an action on the hand at position
  \<open>it\<close>: the hand exists, is skipped by neither guard of the outer loop (lines 453
  and 459), and its score is below 21 (lines 476 and 480).
\<close>

definition atPrompt :: "Player \<Rightarrow> nat \<Rightarrow> bool" where
  "atPrompt p it =
     (it < length (hands p) \<and> \<not> ddown (hands p ! it)
      \<and> \<not> (isplit (hands p ! it) \<and> length (cards (hands p ! it)) = 2
             \<and> rank (hd (cards (hands p ! it))) = ''A''
             \<and> rank (last (cards (hands p ! it))) = ''A'')
      \<and> calcScr (hands p ! it) < 21)"

text \<open>
  Invariants of the decision phase: every doubled hand has three cards, and no hand
  behind the position \<open>it\<close> of the loop is doubled; no wager is negative.
\<close>

definition doubledHaveThree :: "Player \<Rightarrow> bool" where
  "doubledHaveThree p = (\<forall>h \<in> set (hands p). ddown h \<longrightarrow> length (cards h) = 3)"

definition noneDoubledBehind :: "Player \<Rightarrow> nat \<Rightarrow> bool" where
  "noneDoubledBehind p it = (\<forall>h \<in> set (drop (Suc it) (hands p)). \<not> ddown h)"

definition betsNonneg :: "Player \<Rightarrow> bool" where
  "betsNonneg p = (\<forall>h \<in> set (hands p). 0 \<le> bet h)"

section \<open>Concrete cards, hands and tables for the examples\<close>

text \<open>
  \<open>mkCard r s\<close> is the card of rank \<open>r\<close> and suit \<open>s\<close> as \<open>createDk\<close> builds it,
  with the value that \<open>CRDVALS\<close> gives the rank, and \<open>mkHand cs b\<close> is an unflagged
  hand with the cards \<open>cs\<close> and the wager \<open>b\<close>.
\<close>

definition mkCard :: "string \<Rightarrow> string \<Rightarrow> Card" where
  "mkCard r s = \<lparr>rank = r, suit = s, val = the (map_of CRDVALS r)\<rparr>"

definition mkHand :: "Card list \<Rightarrow> int \<Rightarrow> Hand" where
  "mkHand cs b = \<lparr>cards = cs, bet = b, isplit = False, ddown = False\<rparr>"

text \<open>Ten of spades with nine of hearts, and two aces with a nine, written out in full.\<close>

definition hand_10_9 :: Hand where
  "hand_10_9 = \<lparr>cards = [\<lparr>rank = ''10'', suit = ''S'', val = 10\<rparr>,
                          \<lparr>rank = ''9'', suit = ''H'', val = 9\<rparr>],
                bet = 10, isplit = False, ddown = False\<rparr>"

definition hand_A_A_9 :: Hand where
  "hand_A_A_9 = \<lparr>cards = [\<lparr>rank = ''A'', suit = ''S'', val = 11\<rparr>,
                           \<lparr>rank = ''A'', suit = ''H'', val = 11\<rparr>,
                           \<lparr>rank = ''9'', suit = ''H'', val = 9\<rparr>],
                 bet = 10, isplit = False, ddown = False\<rparr>"

text \<open>
  A supply without cards, players who have placed a wager of 10 (\<open>ann\<close>) or hold
  fewer chips than the wager of their hand (\<open>poor\<close>), a generator, a player and a
  dealer before a round, and short decks.
\<close>

definition noCards :: Globals where
  "noCards = \<lparr>deck = [], disPile = [], playQue = [], nshuf = 0\<rparr>"

definition ann :: "Hand list \<Rightarrow> Player" where
  "ann hs = \<lparr>pid = 1, name = ''Ann'', chips = 990, hands = hs\<rparr>"

definition ann10 :: "Card list \<Rightarrow> Player" where
  "ann10 cs = ann [mkHand cs 10]"

text \<open>
  A player with a second hand behind the first one. The program calls \<open>hdlPlay\<close> on
  players with a single hand; \<open>playSplt\<close> and the loop of \<open>hdlPlay\<close> take any list.
\<close>

definition annTwo :: "Card list \<Rightarrow> Player" where
  "annTwo cs = ann [mkHand cs 10, mkHand [mkCard ''9'' ''C'', mkCard ''8'' ''D''] 10]"

definition poor :: Player where
  "poor = \<lparr>pid = 2, name = ''Joe'', chips = 5,
           hands = [mkHand [mkCard ''5'' ''S'', mkCard ''6'' ''H''] 10]\<rparr>"

definition rnd0 :: "nat \<Rightarrow> nat \<Rightarrow> nat" where
  "rnd0 n k = 7 * k + 3"

text \<open>
  A table at the start of a round: the deck is \<open>front\<close> followed by one full deck of
  52 cards. With a front of 8 cards it has the 60 cards below which \<open>playRnd\<close>
  rebuilds the supply, and every card occurs at most twice, as it can in a supply of
  four decks.
\<close>

definition shoeAfter :: "Card list \<Rightarrow> Globals" where
  "shoeAfter front = \<lparr>deck = front @ oneDeck, disPile = [], playQue = [], nshuf = 0\<rparr>"

definition dealerNatural :: Globals where
  "dealerNatural = shoeAfter [mkCard ''9'' ''S'', mkCard ''A'' ''H'', mkCard ''8'' ''S'', mkCard ''K'' ''D'',
                              mkCard ''2'' ''C'', mkCard ''3'' ''C'', mkCard ''4'' ''C'', mkCard ''5'' ''C'']"

text \<open>
  A table of thirty players at a deck of 60 twos: more players than \<open>runGame\<close> seats
  and more twos than four decks hold; \<open>playRnd\<close> takes any list of players and any
  deck.
\<close>

definition guest :: "int \<Rightarrow> Player" where
  "guest n = \<lparr>pid = n, name = ''Guest'', chips = 1000, hands = []\<rparr>"

definition crowd :: "Player list" where
  "crowd = map guest [1..30]"

definition twos :: Globals where
  "twos = \<lparr>deck = concat (replicate 15 [mkCard ''2'' ''S'', mkCard ''2'' ''H'',
                                       mkCard ''2'' ''D'', mkCard ''2'' ''C'']),
           disPile = [], playQue = [], nshuf = 0\<rparr>"

definition bob :: Player where
  "bob = \<lparr>pid = 1, name = ''Bob'', chips = 1000, hands = []\<rparr>"

definition dealer0 :: Player where
  "dealer0 = \<lparr>pid = 0, name = ''Dealer'', chips = 0, hands = [emptyHand]\<rparr>"

definition deck3 :: Globals where
  "deck3 = noCards\<lparr>deck := [mkCard ''5'' ''C'', mkCard ''6'' ''D'', mkCard ''K'' ''D'']\<rparr>"

definition deckK :: Globals where
  "deckK = noCards\<lparr>deck := [mkCard ''K'' ''D'', mkCard ''3'' ''D'']\<rparr>"

definition doubled :: Player where
  "doubled = \<lparr>pid = 1, name = ''Ann'', chips = 980,
              hands = [\<lparr>cards = [mkCard ''10'' ''S'', mkCard ''6'' ''H'', mkCard ''K'' ''D''],
                        bet = 20, isplit = False, ddown = True\<rparr>]\<rparr>"

section \<open>Basic facts\<close>

lemma discHnd_simps [simp]:
  "snd (discHnd G hand) = hand\<lparr>cards := [], bet := 0\<rparr>"
  "deck (fst (discHnd G hand)) = deck G"
  "disPile (fst (discHnd G hand)) = rev (cards hand) @ disPile G"
  "playQue (fst (discHnd G hand)) = playQue G"
  "nshuf (fst (discHnd G hand)) = nshuf G"
proof -
  have "foldl (\<lambda>st c. c # st) st cs = rev cs @ st" for st and cs :: "Card list"
    by (induction cs arbitrary: st) simp_all
  then show "disPile (fst (discHnd G hand)) = rev (cards hand) @ disPile G"
    by (simp add: discHnd_def)
qed (simp_all add: discHnd_def)

lemma mkHand_sel [simp]:
  "cards (mkHand cs b) = cs" "bet (mkHand cs b) = b"
  "isplit (mkHand cs b) = False" "ddown (mkHand cs b) = False"
  by (simp_all add: mkHand_def)

lemma ann_sel [simp]: "hands (ann hs) = hs" "chips (ann hs) = 990"
  by (simp_all add: ann_def)

text \<open>The three cases of a draw.\<close>

lemma dealCrd_nonempty:
  "deck G \<noteq> [] \<Longrightarrow> dealCrd rnd G trgLst = Inr (G\<lparr>deck := tl (deck G)\<rparr>, trgLst @ [hd (deck G)])"
  by (simp add: dealCrd_def)

lemma dealCrd_exhausted:
  "deck G = [] \<Longrightarrow> disPile G = [] \<Longrightarrow> dealCrd rnd G trgLst = Inl SupplyExhausted"
  by (simp add: dealCrd_def refill_def)

lemma dealCrd_error: "dealCrd rnd G trgLst = Inl e \<Longrightarrow> e = SupplyExhausted \<and> deck G = [] \<and> disPile G = []"
  by (auto simp: dealCrd_def Let_def refill_def split: if_splits)

lemma dealCrd_refill:
  assumes "deck G = []" and "disPile G \<noteq> []"
  shows "\<exists>c rest. mset (c # rest) = mset (disPile G)
           \<and> dealCrd rnd G trgLst = Inr (G\<lparr>deck := rest, disPile := [], nshuf := nshuf G + 1\<rparr>, trgLst @ [c])"
proof -
  let ?G1 = "shufDk rnd (refill G)"
  have ne: "deck (refill G) \<noteq> []" using assms by (simp add: refill_def)
  then have ne1: "deck ?G1 \<noteq> []" by simp
  then obtain c rest where cr: "deck ?G1 = c # rest" by (cases "deck ?G1") auto
  have "mset (deck ?G1) = mset (disPile G)" using assms by (simp add: refill_def)
  then have m: "mset (c # rest) = mset (disPile G)" by (simp add: cr)
  have G1: "?G1\<lparr>deck := rest\<rparr> = G\<lparr>deck := rest, disPile := [], nshuf := nshuf G + 1\<rparr>"
    using ne by (simp add: shufDk_def refill_def)
  have "dealCrd rnd G trgLst = Inr (?G1\<lparr>deck := rest\<rparr>, trgLst @ [c])"
    using assms(1) ne1 cr by (simp add: dealCrd_def)
  with m G1 show ?thesis by auto
qed

text \<open>A draw does not depend on the list that receives the card.\<close>

lemma dealCrd_trg:
  "dealCrd rnd G trgLst =
     (case dealCrd rnd G [] of Inl e \<Rightarrow> Inl e | Inr (G', cs) \<Rightarrow> Inr (G', trgLst @ cs))"
  by (simp add: dealCrd_def Let_def)

section \<open>Properties of the scoring functions\<close>

lemma foldl_accum:
  "foldl accum (s, k) cs =
     (s + sum_list (map val (filter (\<lambda>c. rank c \<noteq> ''A'') cs)),
      k + int (length (filter (\<lambda>c. rank c = ''A'') cs)))"
  by (induction cs arbitrary: s k) (simp_all add: accum_def)

lemma div10_shift: "((t::int) - 22) div 10 = (t - 12) div 10 - 1"
proof -
  have "(t - 12) div 10 = ((t - 22) + 10) div 10" by simp
  also have "\<dots> = (t - 22) div 10 + 1" by (simp only: div_add_self2)
  finally show ?thesis by simp
qed

lemma div10_nonneg: "\<not> (t::int) \<le> 21 \<Longrightarrow> 0 \<le> (t - 12) div 10"
  by (simp add: pos_imp_zdiv_nonneg_iff)

lemma div10_one: "(21::int) < t \<Longrightarrow> t \<le> 31 \<Longrightarrow> (t - 12) div 10 = 1"
proof -
  assume a: "21 < t" "t \<le> 31"
  have "(t - 22) div 10 = 0" using a by (simp add: div_pos_pos_trivial)
  then show ?thesis by (simp add: div10_shift)
qed

lemma div10_upper: "(t::int) - 10 * ((t - 12) div 10) \<le> 21"
proof -
  have "(t - 12) mod 10 < 10" by simp
  moreover have "t - 12 = 10 * ((t - 12) div 10) + (t - 12) mod 10" by simp
  ultimately show ?thesis by linarith
qed

lemma div10_lower: "i + 1 \<le> ((t::int) - 12) div 10 \<Longrightarrow> 21 < t - 10 * i"
proof -
  assume a: "i + 1 \<le> (t - 12) div 10"
  have "0 \<le> (t - 12) mod 10" by simp
  moreover have "t - 12 = 10 * ((t - 12) div 10) + (t - 12) mod 10" by simp
  ultimately show ?thesis using a by linarith
qed

lemma adjust_closed:
  "0 \<le> k \<Longrightarrow> adjust t k = t - 10 * (if t \<le> 21 then 0 else min k ((t - 12) div 10))"
proof (induction t k rule: adjust.induct)
  case (1 score ace_cnt)
  show ?case
  proof (cases "score > 21 \<and> ace_cnt > 0")
    case True
    then have "adjust score ace_cnt = adjust (score - 10) (ace_cnt - 1)"
      by (subst adjust.simps) simp
    also have "\<dots> = score - 10 - 10 * (if score - 10 \<le> 21 then 0
                        else min (ace_cnt - 1) ((score - 22) div 10))"
      using "1.IH" True by simp
    also have "\<dots> = score - 10 * (if score \<le> 21 then 0 else min ace_cnt ((score - 12) div 10))"
    proof (cases "score \<le> 31")
      case le: True
      have "(score - 12) div 10 = 1" using True le by (simp add: div10_one)
      with True le show ?thesis by (simp add: min_def)
    next
      case gt: False
      then show ?thesis using True by (simp add: div10_shift min_def)
    qed
    finally show ?thesis .
  next
    case False
    have "score \<le> 21 \<or> ace_cnt = 0" using False "1.prems" by auto
    then show ?thesis
    proof
      assume "score \<le> 21" then show ?thesis by (subst adjust.simps) simp
    next
      assume k0: "ace_cnt = 0"
      show ?thesis
      proof (cases "score \<le> 21")
        case True then show ?thesis by (subst adjust.simps) simp
      next
        case False
        then have "0 \<le> (score - 12) div 10" by (rule div10_nonneg)
        with k0 False show ?thesis by (subst adjust.simps) (simp add: min_def)
      qed
    qed
  qed
qed

lemma calcScr_closed:
  "calcScr h =
     (let t = sum_list (map val (filter (\<lambda>c. rank c \<noteq> ''A'') (cards h)))
              + 11 * int (length (filter (\<lambda>c. rank c = ''A'') (cards h)))
      in t - 10 * (if t \<le> 21 then 0
                   else min (int (length (filter (\<lambda>c. rank c = ''A'') (cards h)))) ((t - 12) div 10)))"
proof (cases "cards h = []")
  case True
  then show ?thesis by (simp add: calcScr_def)
next
  case False
  have "11 * int (length (filter (\<lambda>c. rank c = ''A'') (cards h)))
        = int (length (filter (\<lambda>c. rank c = ''A'') (cards h))) * 11"
    by simp
  with False show ?thesis
    by (simp only: calcScr_def foldl_accum Let_def fst_conv snd_conv if_False add_0
          adjust_closed [OF of_nat_0_le_iff])
qed

lemma calcScr_parts:
  fixes h :: Hand
  defines "S \<equiv> sum_list (map val (filter (\<lambda>c. rank c \<noteq> ''A'') (cards h)))"
    and "k \<equiv> int (length (filter (\<lambda>c. rank c = ''A'') (cards h)))"
  defines "t \<equiv> S + 11 * k"
  defines "j \<equiv> (if t \<le> 21 then 0 else min k ((t - 12) div 10))"
  shows "calcScr h = t - 10 * j"
    and "0 \<le> j" and "j \<le> k"
    and "t - 10 * j \<le> 21 \<or> j = k"
    and "\<forall>i. 0 \<le> i \<and> i < j \<longrightarrow> t - 10 * i > 21"
    and "(\<forall>c \<in> set (cards h). rank c \<noteq> ''A'') \<longrightarrow> calcScr h = sum_list (map val (cards h))"
    and "cards h = [] \<longrightarrow> calcScr h = 0"
proof -
  show 1: "calcScr h = t - 10 * j"
    unfolding S_def k_def t_def j_def using calcScr_closed [of h] by (simp only: Let_def)
  have k0: "0 \<le> k" by (simp add: k_def)
  have "0 \<le> j \<and> j \<le> k"
  proof (cases "t \<le> 21")
    case True then show ?thesis using k0 by (simp add: j_def)
  next
    case False
    then have "0 \<le> (t - 12) div 10" by (rule div10_nonneg)
    with False k0 show ?thesis by (simp add: j_def min_def)
  qed
  then show "0 \<le> j" and "j \<le> k" by simp_all
  show "t - 10 * j \<le> 21 \<or> j = k"
  proof (cases "t \<le> 21")
    case True then show ?thesis by (simp add: j_def)
  next
    case False
    have "t - 10 * ((t - 12) div 10) \<le> 21" by (rule div10_upper)
    with False show ?thesis by (auto simp add: j_def min_def)
  qed
  show "\<forall>i. 0 \<le> i \<and> i < j \<longrightarrow> t - 10 * i > 21"
  proof (intro allI impI)
    fix i assume i: "0 \<le> i \<and> i < j"
    then have nz: "\<not> t \<le> 21" by (auto simp: j_def split: if_splits)
    then have "j \<le> (t - 12) div 10" by (simp add: j_def)
    with i have "i + 1 \<le> (t - 12) div 10" by simp
    then show "t - 10 * i > 21" by (rule div10_lower)
  qed
  show "(\<forall>c \<in> set (cards h). rank c \<noteq> ''A'') \<longrightarrow> calcScr h = sum_list (map val (cards h))"
  proof
    assume na: "\<forall>c \<in> set (cards h). rank c \<noteq> ''A''"
    then have f1: "filter (\<lambda>c. rank c \<noteq> ''A'') (cards h) = cards h"
      by (simp add: filter_id_conv)
    from na have f2: "filter (\<lambda>c. rank c = ''A'') (cards h) = []"
      by (simp add: filter_empty_conv)
    have "k = 0" by (simp add: k_def f2)
    then have "j = 0" by (simp add: j_def)
    with 1 \<open>k = 0\<close> show "calcScr h = sum_list (map val (cards h))"
      by (simp add: t_def S_def f1)
  qed
  show "cards h = [] \<longrightarrow> calcScr h = 0"
    by (simp add: calcScr_def)
qed

text \<open>
  C1. For every hand, \<open>calcScr\<close> is the sum \<open>S\<close> of the values of the non-ace cards
  plus 11 for each of the \<open>k\<close> aces, less 10 for each of \<open>j\<close> softened aces, where
  \<open>j\<close> is what the loop counts: at most \<open>k\<close>, every softening happened while the
  running total exceeded 21, and the loop stopped because the total was at most 21 or
  because all aces were softened. A hand without aces scores the sum of its card
  values, and the empty hand scores 0.
\<close>

theorem calcScr_score:
  "(let S = sum_list (map val (filter (\<lambda>c. rank c \<noteq> ''A'') (cards h)));
        k = int (length (filter (\<lambda>c. rank c = ''A'') (cards h)));
        t = S + 11 * k;
        j = (if t \<le> 21 then 0 else min k ((t - 12) div 10))
    in calcScr h = t - 10 * j \<and> 0 \<le> j \<and> j \<le> k \<and> (t - 10 * j \<le> 21 \<or> j = k)
       \<and> (\<forall>i. 0 \<le> i \<and> i < j \<longrightarrow> 21 < t - 10 * i))
   \<and> ((\<forall>c \<in> set (cards h). rank c \<noteq> ''A'') \<longrightarrow> calcScr h = sum_list (map val (cards h)))
   \<and> (cards h = [] \<longrightarrow> calcScr h = 0)"
  unfolding Let_def
  by (intro conjI calcScr_parts)

theorem calcScr_score_witness:
  "calcScr hand_10_9 = 19 \<and> calcScr hand_A_A_9 = 21
   \<and> calcScr (mkHand [mkCard ''A'' ''S'', mkCard ''A'' ''H''] 10) = 12
   \<and> calcScr (mkHand [mkCard ''A'' ''S'', mkCard ''A'' ''H'', mkCard ''A'' ''D'', mkCard ''9'' ''C''] 10) = 12
   \<and> calcScr emptyHand = 0"
proof (intro conjI)
  have "calcScr hand_10_9 = sum_list (map val (cards hand_10_9))"
    using calcScr_score [of hand_10_9] by (simp add: hand_10_9_def)
  then show "calcScr hand_10_9 = 19" by (simp add: hand_10_9_def)
  show "calcScr hand_A_A_9 = 21"
    using calcScr_score [of hand_A_A_9] by (simp add: hand_A_A_9_def Let_def)
  show "calcScr (mkHand [mkCard ''A'' ''S'', mkCard ''A'' ''H''] 10) = 12"
    using calcScr_score [of "mkHand [mkCard ''A'' ''S'', mkCard ''A'' ''H''] 10"]
    by (simp add: mkCard_def CRDVALS_def Let_def)
  show "calcScr (mkHand [mkCard ''A'' ''S'', mkCard ''A'' ''H'', mkCard ''A'' ''D'', mkCard ''9'' ''C''] 10) = 12"
    using calcScr_score [of "mkHand [mkCard ''A'' ''S'', mkCard ''A'' ''H'', mkCard ''A'' ''D'',
        mkCard ''9'' ''C''] 10"]
    by (simp add: mkCard_def CRDVALS_def Let_def)
  show "calcScr emptyHand = 0"
    using calcScr_score [of emptyHand] by (simp add: emptyHand_def)
qed

section \<open>Conservation of the supply\<close>

lemma sum_list_update_hand:
  fixes f :: "Hand \<Rightarrow> 'a::comm_monoid_add"
  assumes "i < length hs"
  shows "sum_list (map f (hs[i := x])) + f (hs ! i) = sum_list (map f hs) + f x"
proof -
  have "sum_list (map f (take i hs @ hs ! i # drop (Suc i) hs)) + f x
        = sum_list (map f (take i hs @ x # drop (Suc i) hs)) + f (hs ! i)"
    by (simp add: ac_simps)
  then show ?thesis
    using assms by (simp add: upd_conv_take_nth_drop flip: id_take_nth_drop)
qed

lemma size_allCards: "size (allCards st) = totalCount st"
proof -
  have "size (sum_list (map (\<lambda>h. mset (cards h)) hs)) = sum_list (map (\<lambda>h. length (cards h)) hs)"
    for hs :: "Hand list"
    by (induction hs) simp_all
  then show ?thesis by (simp add: allCards_def totalCount_def)
qed

lemma applyOp_allCards:
  assumes "opOk (length hs) op"
  shows "allCards (applyOp rnd (G, hs) op) = allCards (G, hs)
         \<and> length (snd (applyOp rnd (G, hs) op)) = length hs"
proof (cases op)
  case (Draw i)
  with assms have i: "i < length hs" by simp
  show ?thesis
  proof (cases "dealCrd rnd G (cards (hs ! i))")
    case (Inl e)
    with Draw show ?thesis by simp
  next
    case (Inr r)
    obtain G' cs where r: "r = (G', cs)" by (cases r)
    from dealCrd_Inr [OF Inr [unfolded r]] obtain d where
      cs: "cs = cards (hs ! i) @ [d]" and
      m: "add_mset d (mset (deck G') + mset (disPile G')) = mset (deck G) + mset (disPile G)"
      by blast
    have "sum_list (map (\<lambda>h. mset (cards h)) (hs[i := (hs ! i)\<lparr>cards := cs\<rparr>])) + mset (cards (hs ! i))
          = sum_list (map (\<lambda>h. mset (cards h)) hs) + mset (cards ((hs ! i)\<lparr>cards := cs\<rparr>))"
      using i by (rule sum_list_update_hand)
    then have "sum_list (map (\<lambda>h. mset (cards h)) (hs[i := (hs ! i)\<lparr>cards := cs\<rparr>]))
          = add_mset d (sum_list (map (\<lambda>h. mset (cards h)) hs))"
      by (simp add: cs)
    with m [symmetric] show ?thesis
      by (simp add: Draw Inr r allCards_def)
  qed
next
  case (Discard i)
  with assms have i: "i < length hs" by simp
  obtain G' hand' where d: "discHnd G (hs ! i) = (G', hand')"
    by (cases "discHnd G (hs ! i)")
  have G': "deck G' = deck G" "disPile G' = rev (cards (hs ! i)) @ disPile G"
    and h': "hand' = (hs ! i)\<lparr>cards := [], bet := 0\<rparr>"
    using discHnd_simps [of G "hs ! i"] by (simp_all add: d)
  have "sum_list (map (\<lambda>h. mset (cards h)) (hs[i := hand'])) + mset (cards (hs ! i))
        = sum_list (map (\<lambda>h. mset (cards h)) hs) + mset (cards hand')"
    using i by (rule sum_list_update_hand)
  then have "sum_list (map (\<lambda>h. mset (cards h)) (hs[i := hand'])) + mset (cards (hs ! i))
        = sum_list (map (\<lambda>h. mset (cards h)) hs)"
    by (simp add: h')
  then show ?thesis
    by (simp add: Discard d allCards_def G' ac_simps)
next
  case Reshuffle
  then show ?thesis by (simp add: allCards_def)
qed

lemma foldl_applyOp_allCards:
  "\<forall>op \<in> set ops. opOk (length hs) op \<Longrightarrow>
   allCards (foldl (applyOp rnd) (G, hs) ops) = allCards (G, hs)"
proof (induction ops arbitrary: G hs)
  case Nil
  show ?case by simp
next
  case (Cons op ops)
  obtain G1 hs1 where st: "applyOp rnd (G, hs) op = (G1, hs1)"
    by (cases "applyOp rnd (G, hs) op")
  from Cons.prems have ok: "opOk (length hs) op" by simp
  from applyOp_allCards [OF ok, of rnd G] st
  have a: "allCards (G1, hs1) = allCards (G, hs)" and l: "length hs1 = length hs" by simp_all
  from Cons.prems l have "\<forall>op \<in> set ops. opOk (length hs1) op" by simp
  from Cons.IH [OF this, of G1] a st show ?case by simp
qed

lemma length_oneDeck: "length oneDeck = 52"
  by (simp add: oneDeck_def CRDVALS_def SUITS_def)

lemma length_concat_replicate: "length (concat (replicate n xs)) = n * length xs"
  by (induction n) simp_all

lemma createDk_count: "length (deck (createDk numSets G)) = 52 * nat numSets"
  by (simp add: createDk_def length_concat_replicate length_oneDeck)

text \<open>
  C7. Any sequence of draws, discards of whole hands and reshuffles, on any state,
  keeps the multiset of all cards of deck, discard pile and hands, so no card is lost
  or duplicated and their number stays the same; started on the supply that
  \<open>createDk numSets\<close> builds, with the hands still empty, the number is and stays
  \<open>52 * numSets\<close>.
\<close>

theorem supply_conservation:
  assumes "\<forall>op \<in> set ops. opOk (length hs) op"
  shows "allCards (foldl (applyOp rnd) (G, hs) ops) = allCards (G, hs)
         \<and> totalCount (foldl (applyOp rnd) (G, hs) ops) = totalCount (G, hs)
         \<and> ((\<forall>h \<in> set hs. cards h = []) \<longrightarrow>
              totalCount (foldl (applyOp rnd) (createDk numSets G, hs) ops) = 52 * nat numSets)"
proof (intro conjI impI)
  show a: "allCards (foldl (applyOp rnd) (G, hs) ops) = allCards (G, hs)"
    using assms by (rule foldl_applyOp_allCards)
  show "totalCount (foldl (applyOp rnd) (G, hs) ops) = totalCount (G, hs)"
    using a by (simp flip: size_allCards)
  assume e: "\<forall>h \<in> set hs. cards h = []"
  have "allCards (foldl (applyOp rnd) (createDk numSets G, hs) ops) = allCards (createDk numSets G, hs)"
    using assms by (rule foldl_applyOp_allCards)
  then have "totalCount (foldl (applyOp rnd) (createDk numSets G, hs) ops)
             = totalCount (createDk numSets G, hs)"
    by (simp flip: size_allCards)
  moreover have "sum_list (map (\<lambda>h. length (cards h)) hs) = 0"
    using e by (induction hs) simp_all
  ultimately show "totalCount (foldl (applyOp rnd) (createDk numSets G, hs) ops) = 52 * nat numSets"
    by (simp add: totalCount_def createDk_count) (simp add: createDk_def)
qed

theorem supply_conservation_witness:
  "totalCount (foldl (applyOp (\<lambda>n k. 7 * k + 3))
                 (createDk 1 noCards, [emptyHand, emptyHand])
                 [Draw 0, Draw 1, Draw 0, Reshuffle, Discard 0, Draw 1, Discard 1]) = 52"
  using supply_conservation [of "[Draw 0, Draw 1, Draw 0, Reshuffle, Discard 0, Draw 1, Discard 1]"
      "[emptyHand, emptyHand]" "\<lambda>n k. 7 * k + 3" noCards 1]
  by (simp add: emptyHand_def)

section \<open>The dealer\<close>

lemma dealerLoop_result:
  "dealerLoop rnd G dh = Inr (G', dh') \<Longrightarrow>
     17 \<le> calcScr dh'
     \<and> (\<exists>drawn. cards dh' = cards dh @ drawn
           \<and> (\<forall>k < length drawn. calcScr (dh\<lparr>cards := cards dh @ take k drawn\<rparr>) < 17))
     \<and> bet dh' = bet dh \<and> isplit dh' = isplit dh \<and> ddown dh' = ddown dh"
proof (induction rnd G dh rule: dealerLoop.induct)
  case (1 rnd G dealrH)
  note eq = "1.prems" [unfolded dealerLoop.simps [of rnd G dealrH]]
  show ?case
  proof (cases "calcScr dealrH < 17")
    case False
    with eq have "G' = G" "dh' = dealrH" by simp_all
    with False show ?thesis by simp
  next
    case True
    with eq obtain G1 cs where d: "dealCrd rnd G (cards dealrH) = Inr (G1, cs)"
      and r: "dealerLoop rnd G1 (dealrH\<lparr>cards := cs\<rparr>) = Inr (G', dh')"
      by (auto split: sum.splits)
    from dealCrd_Inr [OF d] obtain c where cs: "cs = cards dealrH @ [c]" by blast
    from "1.IH" [OF True d refl r] obtain drawn where
      s: "17 \<le> calcScr dh'" and c1: "cards dh' = cs @ drawn"
      and lt: "\<forall>k < length drawn. calcScr (dealrH\<lparr>cards := cs @ take k drawn\<rparr>) < 17"
      and f: "bet dh' = bet dealrH" "isplit dh' = isplit dealrH" "ddown dh' = ddown dealrH"
      by auto
    have "\<forall>k < length (c # drawn). calcScr (dealrH\<lparr>cards := cards dealrH @ take k (c # drawn)\<rparr>) < 17"
    proof (intro allI impI)
      fix k assume k: "k < length (c # drawn)"
      show "calcScr (dealrH\<lparr>cards := cards dealrH @ take k (c # drawn)\<rparr>) < 17"
      proof (cases k)
        case 0
        with True show ?thesis by simp
      next
        case (Suc j)
        with k lt show ?thesis by (simp add: cs)
      qed
    qed
    moreover have "cards dh' = cards dealrH @ (c # drawn)" by (simp add: c1 cs)
    ultimately show ?thesis using s f by blast
  qed
qed

lemma dealerLoop_stand: "17 \<le> calcScr dh \<Longrightarrow> dealerLoop rnd G dh = Inr (G, dh)"
  by (subst dealerLoop.simps) simp

lemma actionPhase_natural:
  "actionPhase rnd inp G plyrs True = Inr (inp, G\<lparr>playQue := []\<rparr>, plyrs)"
proof (induction "playQue G" arbitrary: G)
  case Nil
  then have "playQue G = []" by simp
  then show ?case by (subst actionPhase.simps) simp
next
  case (Cons q rest)
  from Cons.hyps(2) have q: "playQue G = q # rest" by simp
  have "actionPhase rnd inp (G\<lparr>playQue := rest\<rparr>) plyrs True
        = Inr (inp, G\<lparr>playQue := rest\<rparr>\<lparr>playQue := []\<rparr>, plyrs)"
    by (rule Cons.hyps(1)) simp
  then show ?case by (subst actionPhase.simps) (simp add: q)
qed

lemma dealDealer_dealer:
  assumes "dealDealer rnd G dealr = Inr (G', dealr')" and "hands dealr \<noteq> []"
  shows "chips dealr' = chips dealr \<and> hands dealr' \<noteq> []
         \<and> bet (hands dealr' ! 0) = bet (hands dealr ! 0)
         \<and> isplit (hands dealr' ! 0) = isplit (hands dealr ! 0)
         \<and> ddown (hands dealr' ! 0) = ddown (hands dealr ! 0)"
  using assms by (auto simp: dealDealer_def split: sum.splits)

lemma initialDeal_dealer:
  assumes "initialDeal rnd G plyrs dealr = Inr (G', plyrs', dealr')" and "hands dealr \<noteq> []"
  shows "chips dealr' = chips dealr \<and> hands dealr' \<noteq> []
         \<and> bet (hands dealr' ! 0) = bet (hands dealr ! 0)
         \<and> isplit (hands dealr' ! 0) = isplit (hands dealr ! 0)
         \<and> ddown (hands dealr' ! 0) = ddown (hands dealr ! 0)"
proof -
  from assms(1) obtain G1 plyrs1 G2 dealr2 G3 plyrs3 where
    d1: "dealDealer rnd G1 dealr = Inr (G2, dealr2)" and
    d2: "dealDealer rnd G3 dealr2 = Inr (G', dealr')"
    by (auto simp: initialDeal_def split: sum.splits)
  from dealDealer_dealer [OF d1 assms(2)] have a: "chips dealr2 = chips dealr" "hands dealr2 \<noteq> []"
    "bet (hands dealr2 ! 0) = bet (hands dealr ! 0)"
    "isplit (hands dealr2 ! 0) = isplit (hands dealr ! 0)"
    "ddown (hands dealr2 ! 0) = ddown (hands dealr ! 0)" by simp_all
  from dealDealer_dealer [OF d2 a(2)] a show ?thesis by simp
qed

lemma beforeSettle_phases:
  assumes "beforeSettle rnd ints inp G plyrs dealr = Inr (ints', inp', Gfin, plyrsFin, dealrFin, dealrHfin)"
  shows "\<exists>G2 plyrs2 G3 plyrs3 G4.
           placeBets ints (reshufCheck rnd G) plyrs 0 = Inr (ints', G2, plyrs2)
           \<and> initialDeal rnd G2 plyrs2 dealr = Inr (G3, plyrs3, dealrFin)
           \<and> actionPhase rnd inp G3 plyrs3 (is_nat (hands dealrFin ! 0)) = Inr (inp', G4, plyrsFin)
           \<and> dealerPlay rnd G4 (hands dealrFin ! 0) (is_nat (hands dealrFin ! 0)) = Inr (Gfin, dealrHfin)"
  using assms by (auto simp: beforeSettle_def Let_def split: sum.splits)

lemma beforeSettle_dealer:
  assumes b: "beforeSettle rnd ints inp G plyrs dealr = Inr (ints', inp', Gfin, plyrsFin, dealrFin, dealrHfin)"
    and ne: "hands dealr \<noteq> []"
  shows "chips dealrFin = chips dealr \<and> bet dealrHfin = bet (hands dealr ! 0)
         \<and> isplit dealrHfin = isplit (hands dealr ! 0) \<and> ddown dealrHfin = ddown (hands dealr ! 0)
         \<and> (\<not> is_nat (hands dealrFin ! 0) \<longrightarrow> 17 \<le> calcScr dealrHfin)
         \<and> (is_nat (hands dealrFin ! 0) \<longrightarrow>
              dealrHfin = hands dealrFin ! 0 \<and> inp' = inp
              \<and> (\<exists>G2 plyrs2 G3. initialDeal rnd G2 plyrs2 dealr = Inr (G3, plyrsFin, dealrFin)
                    \<and> Gfin = G3\<lparr>playQue := []\<rparr>))"
proof -
  from beforeSettle_phases [OF b] obtain G2 plyrs2 G3 plyrs3 G4 where
    i: "initialDeal rnd G2 plyrs2 dealr = Inr (G3, plyrs3, dealrFin)"
    and a: "actionPhase rnd inp G3 plyrs3 (is_nat (hands dealrFin ! 0)) = Inr (inp', G4, plyrsFin)"
    and d: "dealerPlay rnd G4 (hands dealrFin ! 0) (is_nat (hands dealrFin ! 0)) = Inr (Gfin, dealrHfin)"
    by blast
  note id = initialDeal_dealer [OF i ne]
  show ?thesis
  proof (cases "is_nat (hands dealrFin ! 0)")
    case True
    from d True have "Gfin = G4" "dealrHfin = hands dealrFin ! 0" by (simp_all add: dealerPlay_def)
    moreover from a True have "inp' = inp" "G4 = G3\<lparr>playQue := []\<rparr>" "plyrsFin = plyrs3"
      by (simp_all add: actionPhase_natural)
    ultimately show ?thesis using id i True by auto
  next
    case False
    with d have "dealerLoop rnd G4 (hands dealrFin ! 0) = Inr (Gfin, dealrHfin)"
      by (simp add: dealerPlay_def)
    from dealerLoop_result [OF this] id False show ?thesis by simp
  qed
qed

lemma dealerLoop_draw:
  assumes "calcScr dh < 17" and "dealCrd rnd G [] = Inr (Ga, [c])"
  shows "dealerLoop rnd G dh = dealerLoop rnd Ga (dh\<lparr>cards := cards dh @ [c]\<rparr>)"
proof -
  have "dealCrd rnd G (cards dh) = Inr (Ga, cards dh @ [c])"
    by (subst dealCrd_trg) (simp add: assms(2))
  with assms(1) show ?thesis by (subst dealerLoop.simps) simp
qed

lemma dealerLoop_exhausted:
  "calcScr dh < 17 \<Longrightarrow> deck G = [] \<Longrightarrow> disPile G = [] \<Longrightarrow> dealerLoop rnd G dh = Inl SupplyExhausted"
  by (subst dealerLoop.simps) (simp add: dealCrd_exhausted)

text \<open>
  Where the loop gives no hand, the dealer has drawn every card of the supply, deck and
  discard pile, and the score is still below 17.
\<close>

lemma dealerLoop_error:
  "dealerLoop rnd G dh = Inl e \<Longrightarrow>
     e = SupplyExhausted
     \<and> (\<exists>drawn. mset drawn = mset (deck G) + mset (disPile G)
           \<and> calcScr (dh\<lparr>cards := cards dh @ drawn\<rparr>) < 17)"
proof (induction rnd G dh rule: dealerLoop.induct)
  case (1 rnd G dealrH)
  note eq = "1.prems" [unfolded dealerLoop.simps [of rnd G dealrH]]
  show ?case
  proof (cases "calcScr dealrH < 17")
    case False
    with eq show ?thesis by simp
  next
    case True
    show ?thesis
    proof (cases "dealCrd rnd G (cards dealrH)")
      case (Inl e')
      with eq True have "e = e'" by simp
      with dealCrd_error [OF Inl] have "e = SupplyExhausted" "deck G = []" "disPile G = []"
        by simp_all
      moreover from True have "calcScr (dealrH\<lparr>cards := cards dealrH @ []\<rparr>) < 17" by simp
      ultimately show ?thesis by (intro conjI exI [of _ "[]"]) simp_all
    next
      case (Inr r)
      obtain G1 cs where r: "r = (G1, cs)" by (cases r)
      from eq True Inr r have "dealerLoop rnd G1 (dealrH\<lparr>cards := cs\<rparr>) = Inl e" by simp
      from "1.IH" [OF True Inr [unfolded r] refl this] obtain drawn where
        e: "e = SupplyExhausted" and m: "mset drawn = mset (deck G1) + mset (disPile G1)"
        and s: "calcScr (dealrH\<lparr>cards := cs @ drawn\<rparr>) < 17" by auto
      from dealCrd_Inr [OF Inr [unfolded r]] obtain d where cs: "cs = cards dealrH @ [d]"
        and c: "add_mset d (mset (deck G1) + mset (disPile G1)) = mset (deck G) + mset (disPile G)"
        by blast
      have "mset (d # drawn) = mset (deck G) + mset (disPile G)" using m c by simp
      moreover have "calcScr (dealrH\<lparr>cards := cards dealrH @ (d # drawn)\<rparr>) < 17"
        using s by (simp add: cs)
      ultimately show ?thesis using e by blast
    qed
  qed
qed

text \<open>
  C9. Without a natural the dealer's play is the dealer's loop. With a score below 17
  the loop draws: the card that the supply gives goes to the hand and the loop goes
  on, and when deck and discard pile are both empty it fails with
  \<open>SupplyExhausted\<close>. With a score of at least 17 it draws nothing and returns. So
  where the loop returns, the final score is at least 17, every state before a draw
  had a score below 17, and only cards were added to the hand: wager and flags are as
  before. Where it gives no hand, the dealer has drawn the whole supply and is still
  below 17. The loop is a total function. With a natural the dealer does not draw
  and the players' decision phases are skipped: no input is read and no player
  changes. In a round, the dealer's chips, wager and flags stay what they were, the
  dealer without a natural ends at 17 or more, and a natural is decided on the
  dealer's two cards.
\<close>

theorem dealer_policy:
  "(dealerLoop rnd G dh = Inr (G', dh') \<longrightarrow>
      17 \<le> calcScr dh'
      \<and> (\<exists>drawn. cards dh' = cards dh @ drawn
            \<and> (\<forall>k < length drawn. calcScr (dh\<lparr>cards := cards dh @ take k drawn\<rparr>) < 17))
      \<and> bet dh' = bet dh \<and> isplit dh' = isplit dh \<and> ddown dh' = ddown dh)
   \<and> (17 \<le> calcScr dh \<longrightarrow> dealerLoop rnd G dh = Inr (G, dh))
   \<and> (calcScr dh < 17 \<and> dealCrd rnd G [] = Inr (Ga, [c]) \<longrightarrow>
        dealerLoop rnd G dh = dealerLoop rnd Ga (dh\<lparr>cards := cards dh @ [c]\<rparr>))
   \<and> (calcScr dh < 17 \<and> deck G \<noteq> [] \<longrightarrow>
        dealerLoop rnd G dh
          = dealerLoop rnd (G\<lparr>deck := tl (deck G)\<rparr>) (dh\<lparr>cards := cards dh @ [hd (deck G)]\<rparr>))
   \<and> (calcScr dh < 17 \<and> deck G = [] \<and> disPile G = [] \<longrightarrow>
        dealerLoop rnd G dh = Inl SupplyExhausted)
   \<and> (dealerLoop rnd G dh = Inl e \<longrightarrow>
        e = SupplyExhausted
        \<and> (\<exists>drawn. mset drawn = mset (deck G) + mset (disPile G)
              \<and> calcScr (dh\<lparr>cards := cards dh @ drawn\<rparr>) < 17))
   \<and> dealerPlay rnd G dh False = dealerLoop rnd G dh
   \<and> dealerPlay rnd G dh True = Inr (G, dh)
   \<and> actionPhase rnd inp G plyrs True = Inr (inp, G\<lparr>playQue := []\<rparr>, plyrs)
   \<and> (beforeSettle rnd ints inp G plyrs dealr = Inr (ints', inp', Gfin, plyrsFin, dealrFin, dealrHfin)
        \<and> hands dealr \<noteq> [] \<longrightarrow>
        chips dealrFin = chips dealr \<and> bet dealrHfin = bet (hands dealr ! 0)
        \<and> isplit dealrHfin = isplit (hands dealr ! 0) \<and> ddown dealrHfin = ddown (hands dealr ! 0)
        \<and> (\<not> is_nat (hands dealrFin ! 0) \<longrightarrow> 17 \<le> calcScr dealrHfin)
        \<and> (is_nat (hands dealrFin ! 0) \<longrightarrow>
             dealrHfin = hands dealrFin ! 0 \<and> inp' = inp
             \<and> (\<exists>G2 plyrs2 G3. initialDeal rnd G2 plyrs2 dealr = Inr (G3, plyrsFin, dealrFin)
                   \<and> Gfin = G3\<lparr>playQue := []\<rparr>)))"
proof (intro conjI impI)
  assume "dealerLoop rnd G dh = Inr (G', dh')"
  note r = dealerLoop_result [OF this]
  from r show "17 \<le> calcScr dh'" by simp
  from r show "\<exists>drawn. cards dh' = cards dh @ drawn
            \<and> (\<forall>k < length drawn. calcScr (dh\<lparr>cards := cards dh @ take k drawn\<rparr>) < 17)" by simp
  from r show "bet dh' = bet dh" "isplit dh' = isplit dh" "ddown dh' = ddown dh" by simp_all
next
  assume "17 \<le> calcScr dh"
  then show "dealerLoop rnd G dh = Inr (G, dh)" by (rule dealerLoop_stand)
next
  assume "calcScr dh < 17 \<and> dealCrd rnd G [] = Inr (Ga, [c])"
  then have "calcScr dh < 17" "dealCrd rnd G [] = Inr (Ga, [c])" by simp_all
  then show "dealerLoop rnd G dh = dealerLoop rnd Ga (dh\<lparr>cards := cards dh @ [c]\<rparr>)"
    by (rule dealerLoop_draw)
next
  assume a: "calcScr dh < 17 \<and> deck G \<noteq> []"
  then have "dealCrd rnd G [] = Inr (G\<lparr>deck := tl (deck G)\<rparr>, [hd (deck G)])"
    by (simp add: dealCrd_nonempty)
  with a show "dealerLoop rnd G dh
          = dealerLoop rnd (G\<lparr>deck := tl (deck G)\<rparr>) (dh\<lparr>cards := cards dh @ [hd (deck G)]\<rparr>)"
    by (simp add: dealerLoop_draw)
next
  assume "calcScr dh < 17 \<and> deck G = [] \<and> disPile G = []"
  then show "dealerLoop rnd G dh = Inl SupplyExhausted" by (simp add: dealerLoop_exhausted)
next
  assume "dealerLoop rnd G dh = Inl e"
  note r = dealerLoop_error [OF this]
  from r show "e = SupplyExhausted" by simp
  from r show "\<exists>drawn. mset drawn = mset (deck G) + mset (disPile G)
              \<and> calcScr (dh\<lparr>cards := cards dh @ drawn\<rparr>) < 17" by simp
next
  show "dealerPlay rnd G dh False = dealerLoop rnd G dh" by (simp add: dealerPlay_def)
  show "dealerPlay rnd G dh True = Inr (G, dh)" by (simp add: dealerPlay_def)
  show "actionPhase rnd inp G plyrs True = Inr (inp, G\<lparr>playQue := []\<rparr>, plyrs)"
    by (rule actionPhase_natural)
next
  assume a: "beforeSettle rnd ints inp G plyrs dealr = Inr (ints', inp', Gfin, plyrsFin, dealrFin, dealrHfin)
        \<and> hands dealr \<noteq> []"
  note r = beforeSettle_dealer [OF conjunct1 [OF a] conjunct2 [OF a]]
  from r show "chips dealrFin = chips dealr" "bet dealrHfin = bet (hands dealr ! 0)"
    "isplit dealrHfin = isplit (hands dealr ! 0)" "ddown dealrHfin = ddown (hands dealr ! 0)" by simp_all
  {
    assume "\<not> is_nat (hands dealrFin ! 0)"
    with r show "17 \<le> calcScr dealrHfin" by simp
  }
  {
    assume n: "is_nat (hands dealrFin ! 0)"
    with r show "dealrHfin = hands dealrFin ! 0" "inp' = inp"
      "\<exists>G2 plyrs2 G3. initialDeal rnd G2 plyrs2 dealr = Inr (G3, plyrsFin, dealrFin)
                   \<and> Gfin = G3\<lparr>playQue := []\<rparr>" by simp_all
  }
qed

lemma dealerLoop_example:
  "dealerLoop rnd0 (noCards\<lparr>deck := [mkCard ''5'' ''C'', mkCard ''K'' ''D'']\<rparr>)
      (mkHand [mkCard ''10'' ''S'', mkCard ''6'' ''H''] 0)
   = Inr (noCards\<lparr>deck := [mkCard ''K'' ''D'']\<rparr>,
          mkHand [mkCard ''10'' ''S'', mkCard ''6'' ''H'', mkCard ''5'' ''C''] 0)"
  by code_simp

lemma score_K_7: "calcScr (mkHand [mkCard ''K'' ''S'', mkCard ''7'' ''H''] 0) = 17"
  by code_simp

lemma beforeSettle_example:
  "beforeSettle rnd0 [10] [''H''] dealerNatural [bob] dealer0 =
     Inr ([], [''H''],
          \<lparr>deck = [mkCard ''2'' ''C'', mkCard ''3'' ''C'', mkCard ''4'' ''C'', mkCard ''5'' ''C'']
                  @ oneDeck,
           disPile = [], playQue = [], nshuf = 0\<rparr>,
          [\<lparr>pid = 1, name = ''Bob'', chips = 990,
            hands = [mkHand [mkCard ''9'' ''S'', mkCard ''8'' ''S''] 10]\<rparr>],
          \<lparr>pid = 0, name = ''Dealer'', chips = 0,
            hands = [mkHand [mkCard ''A'' ''H'', mkCard ''K'' ''D''] 0]\<rparr>,
          mkHand [mkCard ''A'' ''H'', mkCard ''K'' ''D''] 0)"
  by code_simp

lemma nat_A_K: "is_nat (mkHand [mkCard ''A'' ''H'', mkCard ''K'' ''D''] 0)"
  by code_simp

lemma score_10_6: "calcScr (mkHand [mkCard ''10'' ''S'', mkCard ''6'' ''H''] 0) = 16"
  by code_simp

lemma score_10_6_5:
  "calcScr (mkHand [mkCard ''10'' ''S'', mkCard ''6'' ''H'', mkCard ''5'' ''C''] 0) = 21"
  by code_simp

theorem dealer_policy_witness:
  "17 \<le> calcScr (mkHand [mkCard ''10'' ''S'', mkCard ''6'' ''H'', mkCard ''5'' ''C''] 0)
   \<and> dealerLoop rnd0 noCards (mkHand [mkCard ''K'' ''S'', mkCard ''7'' ''H''] 0)
        = Inr (noCards, mkHand [mkCard ''K'' ''S'', mkCard ''7'' ''H''] 0)
   \<and> dealerLoop rnd0 (noCards\<lparr>deck := [mkCard ''5'' ''C'', mkCard ''K'' ''D'']\<rparr>)
          (mkHand [mkCard ''10'' ''S'', mkCard ''6'' ''H''] 0)
        = Inr (noCards\<lparr>deck := [mkCard ''K'' ''D'']\<rparr>,
               mkHand [mkCard ''10'' ''S'', mkCard ''6'' ''H'', mkCard ''5'' ''C''] 0)
   \<and> dealerLoop rnd0 noCards (mkHand [mkCard ''10'' ''S'', mkCard ''6'' ''H''] 0)
        = Inl SupplyExhausted
   \<and> (case beforeSettle rnd0 [10] [''H''] dealerNatural [bob] dealer0 of
         Inl e \<Rightarrow> False
       | Inr (ints', inp', Gfin, plyrsFin, dealrFin, dealrHfin) \<Rightarrow>
           inp' = [''H''] \<and> dealrHfin = hands dealrFin ! 0 \<and> bet dealrHfin = 0 \<and> chips dealrFin = 0)"
proof (intro conjI)
  show "17 \<le> calcScr (mkHand [mkCard ''10'' ''S'', mkCard ''6'' ''H'', mkCard ''5'' ''C''] 0)"
    using dealer_policy [where rnd = rnd0
        and G = "noCards\<lparr>deck := [mkCard ''5'' ''C'', mkCard ''K'' ''D'']\<rparr>"
        and dh = "mkHand [mkCard ''10'' ''S'', mkCard ''6'' ''H''] 0"
        and G' = "noCards\<lparr>deck := [mkCard ''K'' ''D'']\<rparr>"
        and dh' = "mkHand [mkCard ''10'' ''S'', mkCard ''6'' ''H'', mkCard ''5'' ''C''] 0",
        THEN conjunct1]
      dealerLoop_example
    by simp
  show "dealerLoop rnd0 noCards (mkHand [mkCard ''K'' ''S'', mkCard ''7'' ''H''] 0)
        = Inr (noCards, mkHand [mkCard ''K'' ''S'', mkCard ''7'' ''H''] 0)"
    using dealer_policy [where rnd = rnd0 and G = noCards
        and dh = "mkHand [mkCard ''K'' ''S'', mkCard ''7'' ''H''] 0",
        THEN conjunct2, THEN conjunct1]
    by (simp add: score_K_7)
  have "dealerLoop rnd0 (noCards\<lparr>deck := [mkCard ''5'' ''C'', mkCard ''K'' ''D'']\<rparr>)
          (mkHand [mkCard ''10'' ''S'', mkCard ''6'' ''H''] 0)
        = dealerLoop rnd0 (noCards\<lparr>deck := [mkCard ''K'' ''D'']\<rparr>)
            (mkHand [mkCard ''10'' ''S'', mkCard ''6'' ''H'', mkCard ''5'' ''C''] 0)"
    using dealer_policy [where rnd = rnd0
        and G = "noCards\<lparr>deck := [mkCard ''5'' ''C'', mkCard ''K'' ''D'']\<rparr>"
        and dh = "mkHand [mkCard ''10'' ''S'', mkCard ''6'' ''H''] 0",
        THEN conjunct2, THEN conjunct2, THEN conjunct2, THEN conjunct1]
    by (simp add: score_10_6) (simp add: mkHand_def)
  also have "\<dots> = Inr (noCards\<lparr>deck := [mkCard ''K'' ''D'']\<rparr>,
               mkHand [mkCard ''10'' ''S'', mkCard ''6'' ''H'', mkCard ''5'' ''C''] 0)"
    using dealer_policy [where rnd = rnd0 and G = "noCards\<lparr>deck := [mkCard ''K'' ''D'']\<rparr>"
        and dh = "mkHand [mkCard ''10'' ''S'', mkCard ''6'' ''H'', mkCard ''5'' ''C''] 0",
        THEN conjunct2, THEN conjunct1]
    by (simp add: score_10_6_5)
  finally show "dealerLoop rnd0 (noCards\<lparr>deck := [mkCard ''5'' ''C'', mkCard ''K'' ''D'']\<rparr>)
          (mkHand [mkCard ''10'' ''S'', mkCard ''6'' ''H''] 0)
        = Inr (noCards\<lparr>deck := [mkCard ''K'' ''D'']\<rparr>,
               mkHand [mkCard ''10'' ''S'', mkCard ''6'' ''H'', mkCard ''5'' ''C''] 0)" .
  show "dealerLoop rnd0 noCards (mkHand [mkCard ''10'' ''S'', mkCard ''6'' ''H''] 0)
        = Inl SupplyExhausted"
    using dealer_policy [where rnd = rnd0 and G = noCards
        and dh = "mkHand [mkCard ''10'' ''S'', mkCard ''6'' ''H''] 0",
        THEN conjunct2, THEN conjunct2, THEN conjunct2, THEN conjunct2, THEN conjunct1]
    by (simp add: score_10_6 noCards_def)
  show "case beforeSettle rnd0 [10] [''H''] dealerNatural [bob] dealer0 of
         Inl e \<Rightarrow> False
       | Inr (ints', inp', Gfin, plyrsFin, dealrFin, dealrHfin) \<Rightarrow>
           inp' = [''H''] \<and> dealrHfin = hands dealrFin ! 0 \<and> bet dealrHfin = 0 \<and> chips dealrFin = 0"
  proof -
    obtain ints' inp' Gfin plyrsFin dealrFin dealrHfin where
      b: "beforeSettle rnd0 [10] [''H''] dealerNatural [bob] dealer0
          = Inr (ints', inp', Gfin, plyrsFin, dealrFin, dealrHfin)"
      and d3: "hands dealrFin ! 0 = mkHand [mkCard ''A'' ''H'', mkCard ''K'' ''D''] 0"
      using beforeSettle_example by simp
    have ne: "hands dealer0 \<noteq> []" by (simp add: dealer0_def)
    from dealer_policy [where rnd = rnd0 and ints = "[10]" and inp = "[''H'']" and G = dealerNatural
        and plyrs = "[bob]" and dealr = dealer0 and ints' = ints' and inp' = inp' and Gfin = Gfin
        and plyrsFin = plyrsFin and dealrFin = dealrFin and dealrHfin = dealrHfin] b ne
    have "chips dealrFin = chips dealer0 \<and> bet dealrHfin = bet (hands dealer0 ! 0)
          \<and> (is_nat (hands dealrFin ! 0) \<longrightarrow> dealrHfin = hands dealrFin ! 0 \<and> inp' = [''H''])"
      by simp
    with nat_A_K d3 have "inp' = [''H''] \<and> dealrHfin = hands dealrFin ! 0 \<and> bet dealrHfin = 0
        \<and> chips dealrFin = 0"
      by (simp add: dealer0_def emptyHand_def)
    then show ?thesis
      by (auto simp: b)
  qed
qed

section \<open>Split and double down\<close>

text \<open>
  The list of hands in \<open>playSplt\<close>: the new hand \<open>b\<close> goes in behind the original
  hand at position \<open>it\<close>, and the hand that was behind the original one is then at
  position \<open>it + 2\<close>.
\<close>

lemma split_hands_list:
  assumes "it < length hs"
  shows "length (take (Suc it) (hs[it := a]) @ b # drop (Suc it) hs) = Suc (length hs)"
    and "(take (Suc it) (hs[it := a]) @ b # drop (Suc it) hs) ! it = a"
    and "Suc it < length hs \<Longrightarrow>
         ((take (Suc it) (hs[it := a]) @ b # drop (Suc it) hs)[it := a']) ! Suc (Suc it) = hs ! Suc it"
    and "Suc it < length hs \<Longrightarrow>
         (take (Suc it) (hs[it := a]) @ b # drop (Suc it) hs) ! Suc (Suc it) = hs ! Suc it"
    and "Suc it < length hs \<Longrightarrow>
         ((take (Suc it) (hs[it := a]) @ b # drop (Suc it) hs)[it := a'])[Suc (Suc it) := c]
         = take it hs @ [a', b, c] @ drop (Suc (Suc it)) hs"
proof -
  have t: "take (Suc it) (hs[it := a]) = take it hs @ [a]"
    using assms by (simp add: take_Suc_conv_app_nth)
  have l: "length (take it hs) = it" using assms by simp
  show "length (take (Suc it) (hs[it := a]) @ b # drop (Suc it) hs) = Suc (length hs)"
    unfolding t using assms by simp
  show "(take (Suc it) (hs[it := a]) @ b # drop (Suc it) hs) ! it = a"
    unfolding t using l by (simp add: nth_append)
  {
    assume s: "Suc it < length hs"
    then have d: "drop (Suc it) hs = hs ! Suc it # drop (Suc (Suc it)) hs"
      by (simp add: Cons_nth_drop_Suc)
    show "((take (Suc it) (hs[it := a]) @ b # drop (Suc it) hs)[it := a']) ! Suc (Suc it) = hs ! Suc it"
      unfolding t d using l by (simp add: nth_append list_update_append)
    show "(take (Suc it) (hs[it := a]) @ b # drop (Suc it) hs) ! Suc (Suc it) = hs ! Suc it"
      unfolding t d using l by (simp add: nth_append)
    show "((take (Suc it) (hs[it := a]) @ b # drop (Suc it) hs)[it := a'])[Suc (Suc it) := c]
         = take it hs @ [a', b, c] @ drop (Suc (Suc it)) hs"
      unfolding t d using l by (simp add: list_update_append)
  }
qed

lemma playSplt_denied:
  "length (cards (hands p ! it)) \<noteq> 2
   \<or> rank (hd (cards (hands p ! it))) \<noteq> rank (last (cards (hands p ! it)))
   \<or> chips p < bet (hands p ! it) \<Longrightarrow> playSplt rnd G p it = Inr (G, p, it)"
  by (auto simp: playSplt_def Let_def)

text \<open>
  An accepted split of a hand that has a hand behind it: the second card drawn goes to
  that hand, the new hand keeps the one card moved into it, and the iterator is on the
  new hand.
\<close>

lemma playSplt_done:
  assumes it: "Suc it < length (hands p)"
    and two: "length (cards (hands p ! it)) = 2"
    and same: "rank (hd (cards (hands p ! it))) = rank (last (cards (hands p ! it)))"
    and funds: "bet (hands p ! it) \<le> chips p"
    and d1: "dealCrd rnd G [] = Inr (G1, [d1])"
    and d2: "dealCrd rnd G1 [] = Inr (G2, [d2])"
  shows "playSplt rnd G p it =
           Inr (G2, p\<lparr>chips := chips p - bet (hands p ! it),
                      hands := take it (hands p)
                        @ [(hands p ! it)\<lparr>cards := [cards (hands p ! it) ! 0, d1]\<rparr>,
                           \<lparr>cards = [cards (hands p ! it) ! 1], bet = bet (hands p ! it),
                            isplit = True, ddown = False\<rparr>,
                           (hands p ! Suc it)\<lparr>cards := cards (hands p ! Suc it) @ [d2]\<rparr>]
                        @ drop (Suc (Suc it)) (hands p)\<rparr>, Suc it)"
proof -
  let ?h = "hands p ! it"
  from it have it0: "it < length (hands p)" by simp
  from two have hd0: "hd (cards ?h) = cards ?h ! 0" by (cases "cards ?h") simp_all
  have e1: "dealCrd rnd G [cards ?h ! 0] = Inr (G1, [cards ?h ! 0, d1])"
    by (subst dealCrd_trg) (simp add: d1)
  have e2: "dealCrd rnd G1 (cards (hands p ! Suc it)) = Inr (G2, cards (hands p ! Suc it) @ [d2])"
    by (subst dealCrd_trg) (simp add: d2)
  show ?thesis
    using two same funds it
    by (simp add: playSplt_def Let_def split_hands_list [OF it0] hd0 e1 e2)
qed

text \<open>An accepted split of the last hand of the list: the second draw goes through \<open>end()\<close>.\<close>

lemma playSplt_last:
  assumes it: "Suc it = length (hands p)"
    and two: "length (cards (hands p ! it)) = 2"
    and same: "rank (hd (cards (hands p ! it))) = rank (last (cards (hands p ! it)))"
    and funds: "bet (hands p ! it) \<le> chips p"
    and d1: "dealCrd rnd G [] = Inr (G1, [d1])"
  shows "playSplt rnd G p it = Inl Undefined"
proof -
  let ?h = "hands p ! it"
  from it have it0: "it < length (hands p)" by simp
  from two have hd0: "hd (cards ?h) = cards ?h ! 0" by (cases "cards ?h") simp_all
  have e1: "dealCrd rnd G [cards ?h ! 0] = Inr (G1, [cards ?h ! 0, d1])"
    by (subst dealCrd_trg) (simp add: d1)
  show ?thesis
    using two same funds it [symmetric]
    by (simp add: playSplt_def Let_def hd0 e1 nth_append list_update_append)
qed

lemma playSplt_failed:
  assumes it: "it < length (hands p)"
    and two: "length (cards (hands p ! it)) = 2"
    and same: "rank (hd (cards (hands p ! it))) = rank (last (cards (hands p ! it)))"
    and funds: "bet (hands p ! it) \<le> chips p"
    and d: "dealCrd rnd G [] = Inl e
            \<or> (Suc it < length (hands p) \<and> dealCrd rnd G [] = Inr (G1, [d1]) \<and> dealCrd rnd G1 [] = Inl e)"
  shows "playSplt rnd G p it = Inl e"
proof -
  let ?h = "hands p ! it"
  from two have hd0: "hd (cards ?h) = cards ?h ! 0" by (cases "cards ?h") simp_all
  from d show ?thesis
  proof
    assume "dealCrd rnd G [] = Inl e"
    then have "dealCrd rnd G [cards ?h ! 0] = Inl e" by (subst dealCrd_trg) simp
    then show ?thesis
      using two same funds
      by (simp add: playSplt_def Let_def split_hands_list [OF it] hd0)
  next
    assume a: "Suc it < length (hands p) \<and> dealCrd rnd G [] = Inr (G1, [d1]) \<and> dealCrd rnd G1 [] = Inl e"
    then have e1: "dealCrd rnd G [cards ?h ! 0] = Inr (G1, [cards ?h ! 0, d1])"
      by (subst dealCrd_trg) simp
    from a have e2: "dealCrd rnd G1 (cards (hands p ! Suc it)) = Inl e" by (subst dealCrd_trg) simp
    from a have nx: "Suc it < length (hands p)" by simp
    show ?thesis
      using two same funds nx
      by (auto simp add: playSplt_def Let_def split_hands_list [OF it] hd0 e1 e2)
  qed
qed

lemma playDD_denied:
  "length (cards (hands p ! it)) \<noteq> 2 \<or> chips p < bet (hands p ! it) \<Longrightarrow> playDD rnd G p it = Inr (G, p)"
  by (auto simp: playDD_def Let_def)

lemma playDD_done:
  assumes "length (cards (hands p ! it)) = 2" and "bet (hands p ! it) \<le> chips p"
    and "dealCrd rnd G [] = Inr (G1, [d])"
  shows "playDD rnd G p it =
           Inr (G1, p\<lparr>chips := chips p - bet (hands p ! it),
                      hands := (hands p)[it := (hands p ! it)\<lparr>bet := bet (hands p ! it) * 2,
                                                 ddown := True,
                                                 cards := cards (hands p ! it) @ [d]\<rparr>]\<rparr>)"
proof -
  have "dealCrd rnd G (cards (hands p ! it)) = Inr (G1, cards (hands p ! it) @ [d])"
    by (subst dealCrd_trg) (simp add: assms(3))
  then show ?thesis
    using assms(1,2) by (simp add: playDD_def Let_def playHit_def)
qed

lemma hdlLoop_prompt:
  "atPrompt p it \<Longrightarrow>
   hdlLoop rnd inp G p it =
     (case playHand rnd inp G p it of
        Inl e \<Rightarrow> Inl e
      | Inr (inp', G', p', it', split) \<Rightarrow>
          if split then hdlLoop rnd inp' G' p' it' else hdlLoop rnd inp' G' p' (it' + 1))"
  by (subst hdlLoop.simps) (auto simp: atPrompt_def)

lemma hdlLoop_reprompt:
  assumes "atPrompt p it" and "playHand rnd (raw # rest) G p it = playHand rnd rest G p it"
  shows "hdlLoop rnd (raw # rest) G p it = hdlLoop rnd rest G p it"
  by (simp add: hdlLoop_prompt [OF assms(1)] assms(2))

lemma hdlLoop_denied_split:
  assumes pr: "atPrompt p it" and ch: "map toupper raw = ''P''"
    and den: "\<not> (canSplt (hands p ! it) \<and> bet (hands p ! it) \<le> chips p)"
  shows "hdlLoop rnd (raw # rest) G p it = hdlLoop rnd rest G p it"
proof (cases "canSplt (hands p ! it)")
  case False
  from pr have s: "calcScr (hands p ! it) < 21" by (simp add: atPrompt_def)
  have "playHand rnd (raw # rest) G p it = playHand rnd rest G p it"
    using ch False by (simp add: playHand_Cons [OF s])
  with pr show ?thesis by (rule hdlLoop_reprompt)
next
  case True
  with den have "chips p < bet (hands p ! it)" by simp
  then have d: "playSplt rnd G p it = Inr (G, p, it)" by (simp add: playSplt_denied)
  from pr have s: "calcScr (hands p ! it) < 21" by (simp add: atPrompt_def)
  have "playHand rnd (raw # rest) G p it = Inr (rest, G, p, it, True)"
    using ch True d by (simp add: playHand_Cons [OF s])
  then show ?thesis by (simp add: hdlLoop_prompt [OF pr])
qed

lemma hdlLoop_denied_double:
  assumes pr: "atPrompt p it" and ch: "map toupper raw = ''D''"
    and den: "\<not> canDbl p (hands p ! it)"
  shows "hdlLoop rnd (raw # rest) G p it = hdlLoop rnd rest G p it"
proof -
  from pr have s: "calcScr (hands p ! it) < 21" by (simp add: atPrompt_def)
  have "playHand rnd (raw # rest) G p it = playHand rnd rest G p it"
    using ch den by (simp add: playHand_Cons [OF s])
  with pr show ?thesis by (rule hdlLoop_reprompt)
qed

lemma hdlLoop_split:
  assumes pr: "atPrompt p it" and ch: "map toupper raw = ''P''"
    and el: "canSplt (hands p ! it)" and funds: "bet (hands p ! it) \<le> chips p"
    and nxt: "Suc it < length (hands p)"
    and d1: "dealCrd rnd G [] = Inr (G1, [d1])"
    and d2: "dealCrd rnd G1 [] = Inr (G2, [d2])"
  shows "hdlLoop rnd (raw # rest) G p it =
           hdlLoop rnd rest G2
             (p\<lparr>chips := chips p - bet (hands p ! it),
                hands := take it (hands p)
                  @ [(hands p ! it)\<lparr>cards := [cards (hands p ! it) ! 0, d1]\<rparr>,
                     \<lparr>cards = [cards (hands p ! it) ! 1], bet = bet (hands p ! it),
                      isplit = True, ddown = False\<rparr>,
                     (hands p ! Suc it)\<lparr>cards := cards (hands p ! Suc it) @ [d2]\<rparr>]
                  @ drop (Suc (Suc it)) (hands p)\<rparr>) (Suc it)"
proof -
  from pr have s: "calcScr (hands p ! it) < 21" by (simp add: atPrompt_def)
  from el have two: "length (cards (hands p ! it)) = 2"
    and same: "rank (hd (cards (hands p ! it))) = rank (last (cards (hands p ! it)))"
    by (simp_all add: canSplt_def)
  note ps = playSplt_done [OF nxt two same funds d1 d2]
  have "playHand rnd (raw # rest) G p it =
          Inr (rest, G2,
             p\<lparr>chips := chips p - bet (hands p ! it),
                hands := take it (hands p)
                  @ [(hands p ! it)\<lparr>cards := [cards (hands p ! it) ! 0, d1]\<rparr>,
                     \<lparr>cards = [cards (hands p ! it) ! 1], bet = bet (hands p ! it),
                      isplit = True, ddown = False\<rparr>,
                     (hands p ! Suc it)\<lparr>cards := cards (hands p ! Suc it) @ [d2]\<rparr>]
                  @ drop (Suc (Suc it)) (hands p)\<rparr>, Suc it, True)"
    using ch el by (simp add: playHand_Cons [OF s] ps)
  then show ?thesis by (simp add: hdlLoop_prompt [OF pr])
qed

lemma hdlLoop_split_last:
  assumes pr: "atPrompt p it" and ch: "map toupper raw = ''P''"
    and el: "canSplt (hands p ! it)" and funds: "bet (hands p ! it) \<le> chips p"
    and lst: "Suc it = length (hands p)"
    and d1: "dealCrd rnd G [] = Inr (G1, [d1])"
  shows "hdlLoop rnd (raw # rest) G p it = Inl Undefined"
proof -
  from pr have s: "calcScr (hands p ! it) < 21" by (simp add: atPrompt_def)
  from el have two: "length (cards (hands p ! it)) = 2"
    and same: "rank (hd (cards (hands p ! it))) = rank (last (cards (hands p ! it)))"
    by (simp_all add: canSplt_def)
  note ps = playSplt_last [OF lst two same funds d1]
  have "playHand rnd (raw # rest) G p it = Inl Undefined"
    using ch el by (simp add: playHand_Cons [OF s] ps)
  then show ?thesis by (simp add: hdlLoop_prompt [OF pr])
qed

lemma hdlLoop_split_failed:
  assumes pr: "atPrompt p it" and ch: "map toupper raw = ''P''"
    and el: "canSplt (hands p ! it)" and funds: "bet (hands p ! it) \<le> chips p"
    and d: "dealCrd rnd G [] = Inl e
            \<or> (Suc it < length (hands p) \<and> dealCrd rnd G [] = Inr (G1, [d1]) \<and> dealCrd rnd G1 [] = Inl e)"
  shows "hdlLoop rnd (raw # rest) G p it = Inl e"
proof -
  from pr have s: "calcScr (hands p ! it) < 21" and it: "it < length (hands p)"
    by (simp_all add: atPrompt_def)
  from el have two: "length (cards (hands p ! it)) = 2"
    and same: "rank (hd (cards (hands p ! it))) = rank (last (cards (hands p ! it)))"
    by (simp_all add: canSplt_def)
  note ps = playSplt_failed [OF it two same funds d]
  have "playHand rnd (raw # rest) G p it = Inl e"
    using ch el by (simp add: playHand_Cons [OF s] ps)
  then show ?thesis by (simp add: hdlLoop_prompt [OF pr])
qed

lemma canSplt_ranks:
  "canSplt h \<longleftrightarrow> length (cards h) = 2 \<and> rank (cards h ! 0) = rank (cards h ! 1) \<and> \<not> isplit h"
proof (cases "length (cards h) = 2")
  case False
  then show ?thesis by (simp add: canSplt_def)
next
  case True
  then obtain a b where "cards h = [a, b]"
    by (cases "cards h"; cases "tl (cards h)") auto
  then show ?thesis by (simp add: canSplt_def)
qed

lemma hdlLoop_double:
  assumes pr: "atPrompt p it" and ch: "map toupper raw = ''D''"
    and el: "canDbl p (hands p ! it)"
    and d: "dealCrd rnd G [] = Inr (G1, [d])"
  shows "hdlLoop rnd (raw # rest) G p it =
           hdlLoop rnd rest G1
             (p\<lparr>chips := chips p - bet (hands p ! it),
                hands := (hands p)[it := (hands p ! it)\<lparr>bet := bet (hands p ! it) * 2,
                                           ddown := True,
                                           cards := cards (hands p ! it) @ [d]\<rparr>]\<rparr>) (it + 1)"
proof -
  from pr have s: "calcScr (hands p ! it) < 21" by (simp add: atPrompt_def)
  from el have two: "length (cards (hands p ! it)) = 2" and funds: "bet (hands p ! it) \<le> chips p"
    by (simp_all add: canDbl_def)
  note pd = playDD_done [OF two funds d]
  have "playHand rnd (raw # rest) G p it =
          Inr (rest, G1,
             p\<lparr>chips := chips p - bet (hands p ! it),
                hands := (hands p)[it := (hands p ! it)\<lparr>bet := bet (hands p ! it) * 2,
                                           ddown := True,
                                           cards := cards (hands p ! it) @ [d]\<rparr>]\<rparr>, it, False)"
    using ch el by (simp add: playHand_Cons [OF s] pd)
  then show ?thesis by (simp add: hdlLoop_prompt [OF pr])
qed

lemma hdlLoop_skip_ddown:
  "it < length (hands p) \<Longrightarrow> ddown (hands p ! it) \<Longrightarrow>
   hdlLoop rnd inp G p it = hdlLoop rnd inp G p (it + 1)"
  by (subst hdlLoop.simps) simp

text \<open>
  Invariants of the outer loop: \<open>I p it\<close> holds of the player and the iterator
  whenever the loop is at its head.
\<close>

lemma hdlLoop_invariant:
  assumes step: "\<And>rnd inp G p it inp' G' p' it' split.
      \<lbrakk>it < length (hands p); \<not> ddown (hands p ! it); I p it;
        playHand rnd inp G p it = Inr (inp', G', p', it', split)\<rbrakk>
      \<Longrightarrow> I p' (if split then it' else it' + 1)"
    and skip: "\<And>p it. \<lbrakk>it < length (hands p); I p it\<rbrakk> \<Longrightarrow> I p (it + 1)"
  shows "hdlLoop rnd inp G p it = Inr (inp', G', p') \<Longrightarrow> I p it \<Longrightarrow> \<exists>k. I p' k"
proof (induction rnd inp G p it rule: hdlLoop.induct)
  case (1 rnd inp G p it)
  note eq = "1.prems"(1) [unfolded hdlLoop.simps [of rnd inp G p it]]
  show ?case
  proof (cases "it \<ge> length (hands p)")
    case True
    with eq "1.prems"(2) show ?thesis by auto
  next
    case False
    note nend = this
    then have lt: "it < length (hands p)" by simp
    show ?thesis
    proof (cases "ddown (hands p ! it)")
      case True
      with eq nend "1.IH"(1) skip [OF lt "1.prems"(2)] show ?thesis by simp
    next
      case False
      note ndd = this
      show ?thesis
      proof (cases "isplit (hands p ! it) \<and> length (cards (hands p ! it)) = 2
              \<and> rank (hd (cards (hands p ! it))) = ''A''
              \<and> rank (last (cards (hands p ! it))) = ''A''")
        case True
        with eq nend ndd "1.IH"(2) skip [OF lt "1.prems"(2)] show ?thesis by simp
      next
        case False
        note nas = this
        from eq nend ndd nas obtain inp1 G1 p1 it1 split where
          ph: "playHand rnd inp G p it = Inr (inp1, G1, p1, it1, split)"
          and rest: "(if split then hdlLoop rnd inp1 G1 p1 it1 else hdlLoop rnd inp1 G1 p1 (it1 + 1))
                     = Inr (inp', G', p')"
          by (auto split: sum.splits)
        from step [OF lt ndd "1.prems"(2) ph] have I1: "I p1 (if split then it1 else it1 + 1)" .
        show ?thesis
        proof (cases split)
          case True
          with rest I1 "1.IH"(3) [OF nend ndd nas ph refl refl refl refl True] show ?thesis by simp
        next
          case False
          with rest I1 "1.IH"(4) [OF nend ndd nas ph refl refl refl refl False] show ?thesis by simp
        qed
      qed
    qed
  qed
qed

lemma doubledHaveThree_update:
  assumes "doubledHaveThree p" and "ddown h \<longrightarrow> length (cards h) = 3"
  shows "doubledHaveThree (p\<lparr>hands := (hands p)[it := h]\<rparr>)"
  using assms by (auto simp: doubledHaveThree_def dest!: set_update_subset_insert [THEN subsetD])

lemma noneDoubledBehind_Suc: "noneDoubledBehind p it \<Longrightarrow> noneDoubledBehind p (Suc it)"
  using set_drop_subset_set_drop [of "Suc it" "Suc (Suc it)" "hands p"]
  by (auto simp: noneDoubledBehind_def)

lemma playSplt_cases:
  assumes "it < length (hands p)" and "playSplt rnd G p it = Inr (G', p', it')"
  shows "(G' = G \<and> p' = p \<and> it' = it)
         \<or> (Suc it < length (hands p) \<and> it' = Suc it
             \<and> (\<exists>c d. hands p' = take it (hands p)
                   @ [(hands p ! it)\<lparr>cards := c\<rparr>,
                      \<lparr>cards = [cards (hands p ! it) ! 1], bet = bet (hands p ! it),
                       isplit = True, ddown = False\<rparr>,
                      (hands p ! Suc it)\<lparr>cards := d\<rparr>]
                   @ drop (Suc (Suc it)) (hands p)))"
proof (cases "length (cards (hands p ! it)) \<noteq> 2
   \<or> rank (hd (cards (hands p ! it))) \<noteq> rank (last (cards (hands p ! it)))
   \<or> chips p < bet (hands p ! it)")
  case True
  from playSplt_denied [OF this] assms(2) show ?thesis by simp
next
  case False
  then have two: "length (cards (hands p ! it)) = 2"
    and same: "rank (hd (cards (hands p ! it))) = rank (last (cards (hands p ! it)))"
    and funds: "bet (hands p ! it) \<le> chips p" by simp_all
  show ?thesis
  proof (cases "dealCrd rnd G []")
    case (Inl e)
    from playSplt_failed [OF assms(1) two same funds disjI1, OF Inl] assms(2) show ?thesis by simp
  next
    case (Inr r1)
    obtain G1 cs1 where r1: "r1 = (G1, cs1)" by (cases r1)
    from dealCrd_Inr [OF Inr [unfolded r1]] obtain d1 where cs1: "cs1 = [d1]" by auto
    note e1 = Inr [unfolded r1 cs1]
    show ?thesis
    proof (cases "Suc it < length (hands p)")
      case False
      with assms(1) have "Suc it = length (hands p)" by simp
      from playSplt_last [OF this two same funds e1] assms(2) show ?thesis by simp
    next
      case True
      note nxt = this
      show ?thesis
      proof (cases "dealCrd rnd G1 []")
        case (Inl e)
        from playSplt_failed [OF assms(1) two same funds disjI2 [OF conjI [OF nxt conjI [OF e1 Inl]]]]
          assms(2)
        show ?thesis by simp
      next
        case (Inr r2)
        obtain G2 cs2 where r2: "r2 = (G2, cs2)" by (cases r2)
        from dealCrd_Inr [OF Inr [unfolded r2]] obtain d2 where cs2: "cs2 = [d2]" by auto
        note e2 = Inr [unfolded r2 cs2]
        from playSplt_done [OF nxt two same funds e1 e2] assms(2) nxt
        show ?thesis by auto
      qed
    qed
  qed
qed

text \<open>
  One pass of the inner loop keeps the invariant of the doubled hands: a hit changes a
  hand that is not doubled, a double down leaves a doubled hand of three cards at the
  position that the loop then leaves, and a split adds a card to the hand behind the
  new hand, which by the invariant is not doubled.
\<close>

lemma playHand_doubled:
  "playHand rnd inp G p it = Inr (inp', G', p', it', split) \<Longrightarrow> it < length (hands p) \<Longrightarrow>
   \<not> ddown (hands p ! it) \<Longrightarrow> doubledHaveThree p \<and> noneDoubledBehind p it \<Longrightarrow>
   doubledHaveThree p' \<and> noneDoubledBehind p' (if split then it' else it' + 1)"
proof (induction inp arbitrary: G p)
  case Nil
  then show ?case
    by (cases "calcScr (hands p ! it) < 21")
       (auto simp: playHand_Nil playHand_over dest: noneDoubledBehind_Suc)
next
  case (Cons raw rest)
  from Cons.prems(4) have d3: "doubledHaveThree p" and nb: "noneDoubledBehind p it" by simp_all
  show ?case
  proof (cases "calcScr (hands p ! it) < 21")
    case False
    with Cons.prems show ?thesis by (auto simp: playHand_over dest: noneDoubledBehind_Suc)
  next
    case True
    note eq = Cons.prems(1) [unfolded playHand_Cons [OF True]]
    consider (H) "map toupper raw = ''H''"
      | (S) "map toupper raw \<noteq> ''H''" "map toupper raw = ''S''"
      | (D) "map toupper raw = ''D''" "canDbl p (hands p ! it)"
      | (P) "map toupper raw = ''P''" "canSplt (hands p ! it)"
      | (other) "map toupper raw \<noteq> ''H''" "map toupper raw \<noteq> ''S''"
          "\<not> (map toupper raw = ''D'' \<and> canDbl p (hands p ! it))"
          "\<not> (map toupper raw = ''P'' \<and> canSplt (hands p ! it))"
      by blast
    then show ?thesis
    proof cases
      case H
      with eq obtain G1 hand1 where
        ph: "playHit rnd G (hands p ! it) = Inr (G1, hand1)" and
        r: "playHand rnd rest G1 (p\<lparr>hands := (hands p)[it := hand1]\<rparr>) it = Inr (inp', G', p', it', split)"
        by (auto split: sum.splits)
      from playHit_hands [OF ph] Cons.prems(3) have nd: "\<not> ddown hand1" by simp
      then have "doubledHaveThree (p\<lparr>hands := (hands p)[it := hand1]\<rparr>)"
        using d3 by (intro doubledHaveThree_update) simp_all
      moreover have "noneDoubledBehind (p\<lparr>hands := (hands p)[it := hand1]\<rparr>) it"
        using nb by (simp add: noneDoubledBehind_def)
      ultimately have "doubledHaveThree (p\<lparr>hands := (hands p)[it := hand1]\<rparr>)
          \<and> noneDoubledBehind (p\<lparr>hands := (hands p)[it := hand1]\<rparr>) it" ..
      from Cons.IH [OF r _ _ this] Cons.prems(2) nd show ?thesis by simp
    next
      case S
      with eq d3 nb show ?thesis by (auto dest: noneDoubledBehind_Suc)
    next
      case D
      from D(2) have two: "length (cards (hands p ! it)) = 2" and funds: "bet (hands p ! it) \<le> chips p"
        by (simp_all add: canDbl_def)
      from D eq obtain r where pd: "playDD rnd G p it = Inr r" and p': "r = (G', p')"
        and sp: "\<not> split" "it' = it"
        by (auto split: sum.splits)
      show ?thesis
      proof (cases "dealCrd rnd G []")
        case (Inl e)
        then have "dealCrd rnd G (cards (hands p ! it)) = Inl e" by (subst dealCrd_trg) simp
        with pd two funds show ?thesis by (simp add: playDD_def Let_def playHit_def)
      next
        case (Inr r1)
        obtain G1 cs1 where r1: "r1 = (G1, cs1)" by (cases r1)
        from dealCrd_Inr [OF Inr [unfolded r1]] obtain d1 where cs1: "cs1 = [d1]" by auto
        from playDD_done [OF two funds Inr [unfolded r1 cs1]] pd p'
        have pe: "p' = (p\<lparr>chips := chips p - bet (hands p ! it)\<rparr>)\<lparr>hands := (hands p)[it := (hands p ! it)\<lparr>bet := bet (hands p ! it) * 2,
                                           ddown := True,
                                           cards := cards (hands p ! it) @ [d1]\<rparr>]\<rparr>"
          by simp
        have "doubledHaveThree (p\<lparr>chips := chips p - bet (hands p ! it)\<rparr>)"
          using d3 by (simp add: doubledHaveThree_def)
        with pe have a: "doubledHaveThree p'"
          using two doubledHaveThree_update [of "p\<lparr>chips := chips p - bet (hands p ! it)\<rparr>"
              "(hands p ! it)\<lparr>bet := bet (hands p ! it) * 2, ddown := True,
                                           cards := cards (hands p ! it) @ [d1]\<rparr>" it]
          by simp
        from noneDoubledBehind_Suc [OF nb] pe have "noneDoubledBehind p' (Suc it)"
          by (simp add: noneDoubledBehind_def)
        with a sp show ?thesis by simp
      qed
    next
      case P
      with eq have ps: "playSplt rnd G p it = Inr (G', p', it')" and sp: split
        by (auto split: sum.splits)
      from playSplt_cases [OF Cons.prems(2) ps] show ?thesis
      proof
        assume "G' = G \<and> p' = p \<and> it' = it"
        with d3 nb sp show ?thesis by simp
      next
        assume a: "Suc it < length (hands p) \<and> it' = Suc it
             \<and> (\<exists>c d. hands p' = take it (hands p)
                   @ [(hands p ! it)\<lparr>cards := c\<rparr>,
                      \<lparr>cards = [cards (hands p ! it) ! 1], bet = bet (hands p ! it),
                       isplit = True, ddown = False\<rparr>,
                      (hands p ! Suc it)\<lparr>cards := d\<rparr>]
                   @ drop (Suc (Suc it)) (hands p))"
        then obtain c d where nxt: "Suc it < length (hands p)" and it': "it' = Suc it"
          and h: "hands p' = take it (hands p)
                   @ [(hands p ! it)\<lparr>cards := c\<rparr>,
                      \<lparr>cards = [cards (hands p ! it) ! 1], bet = bet (hands p ! it),
                       isplit = True, ddown = False\<rparr>,
                      (hands p ! Suc it)\<lparr>cards := d\<rparr>]
                   @ drop (Suc (Suc it)) (hands p)" by blast
        from nxt have dr: "drop (Suc it) (hands p) = hands p ! Suc it # drop (Suc (Suc it)) (hands p)"
          by (simp add: Cons_nth_drop_Suc)
        from nb have nx: "\<not> ddown (hands p ! Suc it)"
          and rest: "\<forall>h \<in> set (drop (Suc (Suc it)) (hands p)). \<not> ddown h"
          by (simp_all add: noneDoubledBehind_def dr)
        have "doubledHaveThree p'"
          unfolding doubledHaveThree_def h
          using Cons.prems(3) d3 nx rest
          by (auto simp: doubledHaveThree_def dest: in_set_takeD)
        moreover have "noneDoubledBehind p' (Suc it)"
          unfolding noneDoubledBehind_def h
          using nx rest Cons.prems(2) by simp
        ultimately show ?thesis using sp it' by simp
      qed
    next
      case other
      with eq have "playHand rnd rest G p it = Inr (inp', G', p', it', split)" by auto
      from Cons.IH [OF this Cons.prems(2,3,4)] show ?thesis .
    qed
  qed
qed

lemma hdlLoop_doubledHaveThree:
  assumes "hdlLoop rnd inp G p it = Inr (inp', G', p')"
    and "doubledHaveThree p" and "noneDoubledBehind p it"
  shows "doubledHaveThree p'"
proof -
  have "\<exists>k. doubledHaveThree p' \<and> noneDoubledBehind p' k"
  proof (rule hdlLoop_invariant [where I = "\<lambda>p it. doubledHaveThree p \<and> noneDoubledBehind p it",
        OF _ _ assms(1)])
    fix rnd inp G p it inp' G' p' it' split
    assume "it < length (hands p)" "\<not> ddown (hands p ! it)"
      "doubledHaveThree p \<and> noneDoubledBehind p it"
      "playHand rnd inp G p it = Inr (inp', G', p', it', split)"
    then show "doubledHaveThree p' \<and> noneDoubledBehind p' (if split then it' else it' + 1)"
      using playHand_doubled by blast
  next
    fix p it
    assume "it < length (hands p)" "doubledHaveThree p \<and> noneDoubledBehind p it"
    then show "doubledHaveThree p \<and> noneDoubledBehind p (it + 1)"
      by (simp add: noneDoubledBehind_Suc)
  next
    from assms(2,3) show "doubledHaveThree p \<and> noneDoubledBehind p it" ..
  qed
  then show ?thesis by blast
qed

lemma toupper_examples:
  "toupper CHR ''p'' = CHR ''P''" "toupper CHR ''d'' = CHR ''D''"
  "toupper CHR ''h'' = CHR ''H''" "toupper CHR ''s'' = CHR ''S''"
  by code_simp+

text \<open>
  C10. A split or a double down that is asked for and denied changes nothing.
  \<open>playSplt\<close> and \<open>playDD\<close> return the state as it is when their checks fail, and
  \<open>playSplt\<close> leaves the iterator where it is. In \<open>hdlPlay\<close>, at the prompt for a
  hand, the choice P without a splittable hand or without the chips for a second
  wager, and the choice D without two cards or without the chips, lead to the same
  prompt with the same supply, player and hand: the run goes on as the run from the
  unchanged state on the rest of the input.
\<close>

theorem denied_action_no_change:
  "(length (cards (hands p ! it)) \<noteq> 2
      \<or> rank (hd (cards (hands p ! it))) \<noteq> rank (last (cards (hands p ! it)))
      \<or> chips p < bet (hands p ! it) \<longrightarrow> playSplt rnd G p it = Inr (G, p, it))
   \<and> (length (cards (hands p ! it)) \<noteq> 2 \<or> chips p < bet (hands p ! it) \<longrightarrow>
        playDD rnd G p it = Inr (G, p))
   \<and> (atPrompt p it \<and> map toupper raw = ''P''
        \<and> \<not> (canSplt (hands p ! it) \<and> bet (hands p ! it) \<le> chips p) \<longrightarrow>
        hdlLoop rnd (raw # rest) G p it = hdlLoop rnd rest G p it)
   \<and> (atPrompt p it \<and> map toupper raw = ''D'' \<and> \<not> canDbl p (hands p ! it) \<longrightarrow>
        hdlLoop rnd (raw # rest) G p it = hdlLoop rnd rest G p it)"
proof (intro conjI impI)
  assume "length (cards (hands p ! it)) \<noteq> 2
      \<or> rank (hd (cards (hands p ! it))) \<noteq> rank (last (cards (hands p ! it)))
      \<or> chips p < bet (hands p ! it)"
  then show "playSplt rnd G p it = Inr (G, p, it)" by (rule playSplt_denied)
next
  assume "length (cards (hands p ! it)) \<noteq> 2 \<or> chips p < bet (hands p ! it)"
  then show "playDD rnd G p it = Inr (G, p)" by (rule playDD_denied)
next
  assume "atPrompt p it \<and> map toupper raw = ''P''
        \<and> \<not> (canSplt (hands p ! it) \<and> bet (hands p ! it) \<le> chips p)"
  then have "atPrompt p it" "map toupper raw = ''P''"
    "\<not> (canSplt (hands p ! it) \<and> bet (hands p ! it) \<le> chips p)" by simp_all
  then show "hdlLoop rnd (raw # rest) G p it = hdlLoop rnd rest G p it"
    by (rule hdlLoop_denied_split)
next
  assume "atPrompt p it \<and> map toupper raw = ''D'' \<and> \<not> canDbl p (hands p ! it)"
  then have "atPrompt p it" "map toupper raw = ''D''" "\<not> canDbl p (hands p ! it)" by simp_all
  then show "hdlLoop rnd (raw # rest) G p it = hdlLoop rnd rest G p it"
    by (rule hdlLoop_denied_double)
qed

lemma prompt_10_J: "atPrompt (ann10 [mkCard ''10'' ''S'', mkCard ''J'' ''H'']) 0"
  by code_simp

lemma canSplt_10_J: "\<not> canSplt (mkHand [mkCard ''10'' ''S'', mkCard ''J'' ''H''] 10)"
  by code_simp

lemma stand_10_J:
  "hdlLoop rnd0 [''s''] noCards (ann10 [mkCard ''10'' ''S'', mkCard ''J'' ''H'']) 0
   = Inr ([], noCards, ann10 [mkCard ''10'' ''S'', mkCard ''J'' ''H''])"
  by code_simp

lemma prompt_poor: "atPrompt poor 0"
  by code_simp

lemma stand_poor: "hdlLoop rnd0 [''s''] noCards poor 0 = Inr ([], noCards, poor)"
  by code_simp

theorem denied_action_no_change_witness:
  "playSplt rnd0 noCards (ann10 [mkCard ''10'' ''S'', mkCard ''J'' ''H'']) 0
     = Inr (noCards, ann10 [mkCard ''10'' ''S'', mkCard ''J'' ''H''], 0)
   \<and> playDD rnd0 noCards poor 0 = Inr (noCards, poor)
   \<and> hdlLoop rnd0 [''p'', ''s''] noCards (ann10 [mkCard ''10'' ''S'', mkCard ''J'' ''H'']) 0
       = Inr ([], noCards, ann10 [mkCard ''10'' ''S'', mkCard ''J'' ''H''])
   \<and> hdlLoop rnd0 [''d'', ''s''] noCards poor 0 = Inr ([], noCards, poor)"
proof (intro conjI)
  show "playSplt rnd0 noCards (ann10 [mkCard ''10'' ''S'', mkCard ''J'' ''H'']) 0
     = Inr (noCards, ann10 [mkCard ''10'' ''S'', mkCard ''J'' ''H''], 0)"
    using denied_action_no_change [where p = "ann10 [mkCard ''10'' ''S'', mkCard ''J'' ''H'']"
        and it = 0 and rnd = rnd0 and G = noCards]
    by (simp add: ann10_def mkCard_def)
  show "playDD rnd0 noCards poor 0 = Inr (noCards, poor)"
    using denied_action_no_change [where p = poor and it = 0 and rnd = rnd0 and G = noCards]
    by (simp add: poor_def)
  show "hdlLoop rnd0 [''p'', ''s''] noCards (ann10 [mkCard ''10'' ''S'', mkCard ''J'' ''H'']) 0
       = Inr ([], noCards, ann10 [mkCard ''10'' ''S'', mkCard ''J'' ''H''])"
    using denied_action_no_change [where p = "ann10 [mkCard ''10'' ''S'', mkCard ''J'' ''H'']"
        and it = 0 and rnd = rnd0 and G = noCards and raw = "''p''" and rest = "[''s'']"]
      prompt_10_J canSplt_10_J
    by (simp add: toupper_examples stand_10_J) (simp add: ann10_def)
  show "hdlLoop rnd0 [''d'', ''s''] noCards poor 0 = Inr ([], noCards, poor)"
    using denied_action_no_change [where p = poor and it = 0 and rnd = rnd0 and G = noCards
        and raw = "''d''" and rest = "[''s'']"]
      prompt_poor
    by (simp add: toupper_examples stand_poor) (simp add: poor_def canDbl_def)
qed

text \<open>
  C4. A hand can be split when it has two cards of the same rank and is not flagged
  \<open>isplit\<close>; without the chips for a second wager the choice P changes nothing and
  the prompt is repeated. An accepted split takes the wager from the chips, leaves the
  first card in the original hand, puts the second card into a new hand with the same
  wager and the flag \<open>isplit\<close> right behind it, and draws a card into the original
  hand. So far the code does what the specification says of a split. Then it departs
  from it: the second card is drawn through the iterator moved one step too far
  (lines 350-351), against the comments of lines 346-352.
  When the split hand is the last of the list, as the only hand of a player always is,
  that iterator is \<open>end()\<close> and the behaviour is undefined. When another hand
  follows, that hand receives the card, the new hand is left with one card, and play
  goes on at the new hand, not at the original one, which is not visited again.
\<close>

theorem split_as_coded:
  "(canSplt h \<longleftrightarrow> length (cards h) = 2 \<and> rank (cards h ! 0) = rank (cards h ! 1) \<and> \<not> isplit h)
   \<and> (atPrompt p it \<and> map toupper raw = ''P''
        \<and> \<not> (canSplt (hands p ! it) \<and> bet (hands p ! it) \<le> chips p) \<longrightarrow>
        hdlLoop rnd (raw # rest) G p it = hdlLoop rnd rest G p it)
   \<and> (atPrompt p it \<and> map toupper raw = ''P''
        \<and> canSplt (hands p ! it) \<and> bet (hands p ! it) \<le> chips p
        \<and> Suc it = length (hands p) \<and> dealCrd rnd G [] = Inr (Ga, [da]) \<longrightarrow>
        hdlLoop rnd (raw # rest) G p it = Inl Undefined)
   \<and> (atPrompt p it \<and> map toupper raw = ''P''
        \<and> canSplt (hands p ! it) \<and> bet (hands p ! it) \<le> chips p
        \<and> Suc it < length (hands p)
        \<and> dealCrd rnd G [] = Inr (Ga, [da]) \<and> dealCrd rnd Ga [] = Inr (Gb, [db]) \<longrightarrow>
        hdlLoop rnd (raw # rest) G p it =
          hdlLoop rnd rest Gb
            (p\<lparr>chips := chips p - bet (hands p ! it),
               hands := take it (hands p)
                 @ [(hands p ! it)\<lparr>cards := [cards (hands p ! it) ! 0, da]\<rparr>,
                    \<lparr>cards = [cards (hands p ! it) ! 1], bet = bet (hands p ! it),
                     isplit = True, ddown = False\<rparr>,
                    (hands p ! Suc it)\<lparr>cards := cards (hands p ! Suc it) @ [db]\<rparr>]
                 @ drop (Suc (Suc it)) (hands p)\<rparr>) (Suc it))
   \<and> (atPrompt p it \<and> map toupper raw = ''P''
        \<and> canSplt (hands p ! it) \<and> bet (hands p ! it) \<le> chips p
        \<and> (dealCrd rnd G [] = Inl e
            \<or> (Suc it < length (hands p) \<and> dealCrd rnd G [] = Inr (Ga, [da])
                \<and> dealCrd rnd Ga [] = Inl e)) \<longrightarrow>
        hdlLoop rnd (raw # rest) G p it = Inl e)"
proof (intro conjI impI)
  show "canSplt h \<longleftrightarrow> length (cards h) = 2 \<and> rank (cards h ! 0) = rank (cards h ! 1) \<and> \<not> isplit h"
    by (rule canSplt_ranks)
next
  assume "atPrompt p it \<and> map toupper raw = ''P''
        \<and> \<not> (canSplt (hands p ! it) \<and> bet (hands p ! it) \<le> chips p)"
  then have "atPrompt p it" "map toupper raw = ''P''"
    "\<not> (canSplt (hands p ! it) \<and> bet (hands p ! it) \<le> chips p)" by simp_all
  then show "hdlLoop rnd (raw # rest) G p it = hdlLoop rnd rest G p it"
    by (rule hdlLoop_denied_split)
next
  assume "atPrompt p it \<and> map toupper raw = ''P''
        \<and> canSplt (hands p ! it) \<and> bet (hands p ! it) \<le> chips p
        \<and> Suc it = length (hands p) \<and> dealCrd rnd G [] = Inr (Ga, [da])"
  then have "atPrompt p it" "map toupper raw = ''P''" "canSplt (hands p ! it)"
    "bet (hands p ! it) \<le> chips p" "Suc it = length (hands p)"
    "dealCrd rnd G [] = Inr (Ga, [da])" by simp_all
  then show "hdlLoop rnd (raw # rest) G p it = Inl Undefined"
    by (rule hdlLoop_split_last)
next
  assume "atPrompt p it \<and> map toupper raw = ''P''
        \<and> canSplt (hands p ! it) \<and> bet (hands p ! it) \<le> chips p
        \<and> Suc it < length (hands p)
        \<and> dealCrd rnd G [] = Inr (Ga, [da]) \<and> dealCrd rnd Ga [] = Inr (Gb, [db])"
  then have "atPrompt p it" "map toupper raw = ''P''" "canSplt (hands p ! it)"
    "bet (hands p ! it) \<le> chips p" "Suc it < length (hands p)"
    "dealCrd rnd G [] = Inr (Ga, [da])" "dealCrd rnd Ga [] = Inr (Gb, [db])" by simp_all
  then show "hdlLoop rnd (raw # rest) G p it =
          hdlLoop rnd rest Gb
            (p\<lparr>chips := chips p - bet (hands p ! it),
               hands := take it (hands p)
                 @ [(hands p ! it)\<lparr>cards := [cards (hands p ! it) ! 0, da]\<rparr>,
                    \<lparr>cards = [cards (hands p ! it) ! 1], bet = bet (hands p ! it),
                     isplit = True, ddown = False\<rparr>,
                    (hands p ! Suc it)\<lparr>cards := cards (hands p ! Suc it) @ [db]\<rparr>]
                 @ drop (Suc (Suc it)) (hands p)\<rparr>) (Suc it)"
    by (rule hdlLoop_split)
next
  assume "atPrompt p it \<and> map toupper raw = ''P''
        \<and> canSplt (hands p ! it) \<and> bet (hands p ! it) \<le> chips p
        \<and> (dealCrd rnd G [] = Inl e
            \<or> (Suc it < length (hands p) \<and> dealCrd rnd G [] = Inr (Ga, [da])
                \<and> dealCrd rnd Ga [] = Inl e))"
  then have "atPrompt p it" "map toupper raw = ''P''" "canSplt (hands p ! it)"
    "bet (hands p ! it) \<le> chips p"
    "dealCrd rnd G [] = Inl e
     \<or> (Suc it < length (hands p) \<and> dealCrd rnd G [] = Inr (Ga, [da]) \<and> dealCrd rnd Ga [] = Inl e)"
    by simp_all
  then show "hdlLoop rnd (raw # rest) G p it = Inl e"
    by (rule hdlLoop_split_failed)
qed

lemma prompt_10_10: "atPrompt (ann10 [mkCard ''10'' ''S'', mkCard ''10'' ''H'']) 0"
  by code_simp

lemma prompt_two_10_10: "atPrompt (annTwo [mkCard ''10'' ''S'', mkCard ''10'' ''H'']) 0"
  by code_simp

lemma canSplt_10_10: "canSplt (mkHand [mkCard ''10'' ''S'', mkCard ''10'' ''H''] 10)"
  by code_simp

lemma draws_deck3:
  "dealCrd rnd0 deck3 [] = Inr (deck3\<lparr>deck := [mkCard ''6'' ''D'', mkCard ''K'' ''D'']\<rparr>, [mkCard ''5'' ''C''])"
  "dealCrd rnd0 (deck3\<lparr>deck := [mkCard ''6'' ''D'', mkCard ''K'' ''D'']\<rparr>) []
     = Inr (deck3\<lparr>deck := [mkCard ''K'' ''D'']\<rparr>, [mkCard ''6'' ''D''])"
  by code_simp+

lemma after_split_10_10:
  "hdlLoop rnd0 [''s'', ''s''] (deck3\<lparr>deck := [mkCard ''K'' ''D'']\<rparr>)
     \<lparr>pid = 1, name = ''Ann'', chips = 980,
      hands = [mkHand [mkCard ''10'' ''S'', mkCard ''5'' ''C''] 10,
               \<lparr>cards = [mkCard ''10'' ''H''], bet = 10, isplit = True, ddown = False\<rparr>,
               mkHand [mkCard ''9'' ''C'', mkCard ''8'' ''D'', mkCard ''6'' ''D''] 10]\<rparr> 1
   = Inr ([''s''], deck3\<lparr>deck := [mkCard ''K'' ''D'']\<rparr>,
     \<lparr>pid = 1, name = ''Ann'', chips = 980,
      hands = [mkHand [mkCard ''10'' ''S'', mkCard ''5'' ''C''] 10,
               \<lparr>cards = [mkCard ''10'' ''H''], bet = 10, isplit = True, ddown = False\<rparr>,
               mkHand [mkCard ''9'' ''C'', mkCard ''8'' ''D'', mkCard ''6'' ''D''] 10]\<rparr>)"
  by code_simp

lemma stand_10_J_deck3:
  "hdlLoop rnd0 [''s''] deck3 (ann10 [mkCard ''10'' ''S'', mkCard ''J'' ''H'']) 0
   = Inr ([], deck3, ann10 [mkCard ''10'' ''S'', mkCard ''J'' ''H''])"
  by code_simp

lemma round_split_10_10:
  "tryRound rnd0 [10] [''P'']
     (shoeAfter [mkCard ''10'' ''S'', mkCard ''9'' ''H'', mkCard ''10'' ''H'', mkCard ''7'' ''D'',
                 mkCard ''5'' ''C'', mkCard ''6'' ''D'', mkCard ''K'' ''D'', mkCard ''3'' ''D''])
     [bob] dealer0
   = UndefinedRun"
  by code_simp

theorem split_as_coded_witness:
  "hdlPlay rnd0 [''p'', ''s'', ''s''] deck3 (ann10 [mkCard ''10'' ''S'', mkCard ''10'' ''H''])
     = Inl Undefined
   \<and> tryRound rnd0 [10] [''P'']
       (shoeAfter [mkCard ''10'' ''S'', mkCard ''9'' ''H'', mkCard ''10'' ''H'', mkCard ''7'' ''D'',
                   mkCard ''5'' ''C'', mkCard ''6'' ''D'', mkCard ''K'' ''D'', mkCard ''3'' ''D''])
       [bob] dealer0
     = UndefinedRun
   \<and> hdlLoop rnd0 [''p'', ''s'', ''s''] deck3 (annTwo [mkCard ''10'' ''S'', mkCard ''10'' ''H'']) 0
       = Inr ([''s''], deck3\<lparr>deck := [mkCard ''K'' ''D'']\<rparr>,
           \<lparr>pid = 1, name = ''Ann'', chips = 980,
            hands = [mkHand [mkCard ''10'' ''S'', mkCard ''5'' ''C''] 10,
                     \<lparr>cards = [mkCard ''10'' ''H''], bet = 10, isplit = True, ddown = False\<rparr>,
                     mkHand [mkCard ''9'' ''C'', mkCard ''8'' ''D'', mkCard ''6'' ''D''] 10]\<rparr>)
   \<and> hdlLoop rnd0 [''p'', ''s''] deck3 (ann10 [mkCard ''10'' ''S'', mkCard ''J'' ''H'']) 0
       = Inr ([], deck3, ann10 [mkCard ''10'' ''S'', mkCard ''J'' ''H''])
   \<and> hdlLoop rnd0 [''p'', ''s''] noCards (ann10 [mkCard ''10'' ''S'', mkCard ''10'' ''H'']) 0
       = Inl SupplyExhausted"
proof (intro conjI)
  show "hdlPlay rnd0 [''p'', ''s'', ''s''] deck3 (ann10 [mkCard ''10'' ''S'', mkCard ''10'' ''H''])
     = Inl Undefined"
    using split_as_coded [where p = "ann10 [mkCard ''10'' ''S'', mkCard ''10'' ''H'']"
        and it = 0 and raw = "''p''" and rest = "[''s'', ''s'']" and rnd = rnd0 and G = deck3
        and Ga = "deck3\<lparr>deck := [mkCard ''6'' ''D'', mkCard ''K'' ''D'']\<rparr>"
        and da = "mkCard ''5'' ''C''"]
      prompt_10_10 canSplt_10_10 draws_deck3
    by (simp add: toupper_examples hdlPlay_def) (simp add: ann10_def)
  show "tryRound rnd0 [10] [''P'']
       (shoeAfter [mkCard ''10'' ''S'', mkCard ''9'' ''H'', mkCard ''10'' ''H'', mkCard ''7'' ''D'',
                   mkCard ''5'' ''C'', mkCard ''6'' ''D'', mkCard ''K'' ''D'', mkCard ''3'' ''D''])
       [bob] dealer0
     = UndefinedRun"
    by (rule round_split_10_10)
  have "hdlLoop rnd0 [''p'', ''s'', ''s''] deck3 (annTwo [mkCard ''10'' ''S'', mkCard ''10'' ''H'']) 0
        = hdlLoop rnd0 [''s'', ''s''] (deck3\<lparr>deck := [mkCard ''K'' ''D'']\<rparr>)
            \<lparr>pid = 1, name = ''Ann'', chips = 980,
              hands = [mkHand [mkCard ''10'' ''S'', mkCard ''5'' ''C''] 10,
                       \<lparr>cards = [mkCard ''10'' ''H''], bet = 10, isplit = True, ddown = False\<rparr>,
                       mkHand [mkCard ''9'' ''C'', mkCard ''8'' ''D'', mkCard ''6'' ''D''] 10]\<rparr> 1"
    using split_as_coded [where p = "annTwo [mkCard ''10'' ''S'', mkCard ''10'' ''H'']"
        and it = 0 and raw = "''p''" and rest = "[''s'', ''s'']" and rnd = rnd0 and G = deck3
        and Ga = "deck3\<lparr>deck := [mkCard ''6'' ''D'', mkCard ''K'' ''D'']\<rparr>"
        and da = "mkCard ''5'' ''C''" and Gb = "deck3\<lparr>deck := [mkCard ''K'' ''D'']\<rparr>"
        and db = "mkCard ''6'' ''D''"]
      prompt_two_10_10 canSplt_10_10 draws_deck3
    by (simp add: toupper_examples) (simp add: annTwo_def ann_def mkHand_def)
  then show "hdlLoop rnd0 [''p'', ''s'', ''s''] deck3 (annTwo [mkCard ''10'' ''S'', mkCard ''10'' ''H'']) 0
       = Inr ([''s''], deck3\<lparr>deck := [mkCard ''K'' ''D'']\<rparr>,
           \<lparr>pid = 1, name = ''Ann'', chips = 980,
            hands = [mkHand [mkCard ''10'' ''S'', mkCard ''5'' ''C''] 10,
                     \<lparr>cards = [mkCard ''10'' ''H''], bet = 10, isplit = True, ddown = False\<rparr>,
                     mkHand [mkCard ''9'' ''C'', mkCard ''8'' ''D'', mkCard ''6'' ''D''] 10]\<rparr>)"
    by (simp only: after_split_10_10)
  show "hdlLoop rnd0 [''p'', ''s''] deck3 (ann10 [mkCard ''10'' ''S'', mkCard ''J'' ''H'']) 0
       = Inr ([], deck3, ann10 [mkCard ''10'' ''S'', mkCard ''J'' ''H''])"
    using split_as_coded [where p = "ann10 [mkCard ''10'' ''S'', mkCard ''J'' ''H'']"
        and it = 0 and raw = "''p''" and rest = "[''s'']" and rnd = rnd0 and G = deck3]
      prompt_10_J canSplt_10_J
    by (simp add: toupper_examples stand_10_J_deck3) (simp add: ann10_def)
  have "dealCrd rnd0 noCards [] = Inl SupplyExhausted"
    by (simp add: dealCrd_exhausted noCards_def)
  then show "hdlLoop rnd0 [''p'', ''s''] noCards (ann10 [mkCard ''10'' ''S'', mkCard ''10'' ''H'']) 0
       = Inl SupplyExhausted"
    using split_as_coded [where p = "ann10 [mkCard ''10'' ''S'', mkCard ''10'' ''H'']"
        and it = 0 and raw = "''p''" and rest = "[''s'']" and rnd = rnd0 and G = noCards
        and e = SupplyExhausted]
      prompt_10_10 canSplt_10_10
    by (simp add: toupper_examples) (simp add: ann10_def)
qed

text \<open>
  C6. A hand can be doubled when it has two cards and the chips cover its wager. At the
  prompt, the choice D on such a hand takes the wager from the chips, doubles the
  wager of the hand, sets \<open>ddown\<close>, draws one card, and ends the turn of the hand
  whatever its score is then: the loop moves to the next hand. Otherwise the choice D
  changes nothing and the prompt is repeated. A hand with \<open>ddown\<close> is passed over
  without a prompt. Hence every doubled hand has exactly 3 cards when the decision
  phase returns, provided that at its start every doubled hand has 3 cards and no hand
  behind the position of the loop is doubled (a split draws a card into the hand
  behind the new hand). The decision phase of the program starts on a player with one
  hand, which is not doubled.
\<close>

theorem double_down_terminal:
  "(canDbl p h \<longleftrightarrow> length (cards h) = 2 \<and> bet h \<le> chips p)
   \<and> (atPrompt p it \<and> map toupper raw = ''D'' \<and> canDbl p (hands p ! it)
        \<and> dealCrd rnd G [] = Inr (Ga, [d]) \<longrightarrow>
        hdlLoop rnd (raw # rest) G p it =
          hdlLoop rnd rest Ga
            (p\<lparr>chips := chips p - bet (hands p ! it),
               hands := (hands p)[it := (hands p ! it)\<lparr>bet := bet (hands p ! it) * 2,
                                          ddown := True,
                                          cards := cards (hands p ! it) @ [d]\<rparr>]\<rparr>) (it + 1))
   \<and> (atPrompt p it \<and> map toupper raw = ''D'' \<and> \<not> canDbl p (hands p ! it) \<longrightarrow>
        hdlLoop rnd (raw # rest) G p it = hdlLoop rnd rest G p it)
   \<and> (it < length (hands p) \<and> ddown (hands p ! it) \<longrightarrow>
        hdlLoop rnd inp G p it = hdlLoop rnd inp G p (it + 1))
   \<and> (hdlLoop rnd inp G p it = Inr (inp', G', p')
        \<and> (\<forall>h \<in> set (hands p). ddown h \<longrightarrow> length (cards h) = 3)
        \<and> (\<forall>h \<in> set (drop (Suc it) (hands p)). \<not> ddown h) \<longrightarrow>
        (\<forall>h \<in> set (hands p'). ddown h \<longrightarrow> length (cards h) = 3))
   \<and> (hdlPlay rnd inp G p = Inr (inp', G', p') \<and> hands p = [hnd] \<and> \<not> ddown hnd \<longrightarrow>
        (\<forall>h \<in> set (hands p'). ddown h \<longrightarrow> length (cards h) = 3))"
proof (intro conjI impI)
  show "canDbl p h \<longleftrightarrow> length (cards h) = 2 \<and> bet h \<le> chips p"
    by (simp add: canDbl_def)
next
  assume "atPrompt p it \<and> map toupper raw = ''D'' \<and> canDbl p (hands p ! it)
        \<and> dealCrd rnd G [] = Inr (Ga, [d])"
  then have "atPrompt p it" "map toupper raw = ''D''" "canDbl p (hands p ! it)"
    "dealCrd rnd G [] = Inr (Ga, [d])" by simp_all
  then show "hdlLoop rnd (raw # rest) G p it =
          hdlLoop rnd rest Ga
            (p\<lparr>chips := chips p - bet (hands p ! it),
               hands := (hands p)[it := (hands p ! it)\<lparr>bet := bet (hands p ! it) * 2,
                                          ddown := True,
                                          cards := cards (hands p ! it) @ [d]\<rparr>]\<rparr>) (it + 1)"
    by (rule hdlLoop_double)
next
  assume "atPrompt p it \<and> map toupper raw = ''D'' \<and> \<not> canDbl p (hands p ! it)"
  then have "atPrompt p it" "map toupper raw = ''D''" "\<not> canDbl p (hands p ! it)" by simp_all
  then show "hdlLoop rnd (raw # rest) G p it = hdlLoop rnd rest G p it"
    by (rule hdlLoop_denied_double)
next
  assume "it < length (hands p) \<and> ddown (hands p ! it)"
  then show "hdlLoop rnd inp G p it = hdlLoop rnd inp G p (it + 1)"
    by (simp add: hdlLoop_skip_ddown)
next
  assume a: "hdlLoop rnd inp G p it = Inr (inp', G', p')
        \<and> (\<forall>h \<in> set (hands p). ddown h \<longrightarrow> length (cards h) = 3)
        \<and> (\<forall>h \<in> set (drop (Suc it) (hands p)). \<not> ddown h)"
  then have "hdlLoop rnd inp G p it = Inr (inp', G', p')" "doubledHaveThree p"
    "noneDoubledBehind p it"
    by (simp_all add: doubledHaveThree_def noneDoubledBehind_def)
  then have "doubledHaveThree p'" by (rule hdlLoop_doubledHaveThree)
  then show "\<forall>h \<in> set (hands p'). ddown h \<longrightarrow> length (cards h) = 3"
    by (simp add: doubledHaveThree_def)
next
  assume a: "hdlPlay rnd inp G p = Inr (inp', G', p') \<and> hands p = [hnd] \<and> \<not> ddown hnd"
  then have "hdlLoop rnd inp G p 0 = Inr (inp', G', p')" "doubledHaveThree p"
    "noneDoubledBehind p 0"
    by (simp_all add: hdlPlay_def doubledHaveThree_def noneDoubledBehind_def)
  then have "doubledHaveThree p'" by (rule hdlLoop_doubledHaveThree)
  then show "\<forall>h \<in> set (hands p'). ddown h \<longrightarrow> length (cards h) = 3"
    by (simp add: doubledHaveThree_def)
qed

lemma prompt_10_6: "atPrompt (ann10 [mkCard ''10'' ''S'', mkCard ''6'' ''H'']) 0"
  by code_simp

lemma draw_deckK:
  "dealCrd rnd0 deckK [] = Inr (deckK\<lparr>deck := [mkCard ''3'' ''D'']\<rparr>, [mkCard ''K'' ''D''])"
  by code_simp

lemma after_double:
  "hdlLoop rnd0 [''h''] (deckK\<lparr>deck := [mkCard ''3'' ''D'']\<rparr>) doubled 1
     = Inr ([''h''], deckK\<lparr>deck := [mkCard ''3'' ''D'']\<rparr>, doubled)"
  by code_simp

lemma score_doubled: "calcScr (hands doubled ! 0) = 26"
  by code_simp

theorem double_down_terminal_witness:
  "hdlPlay rnd0 [''d'', ''h''] deckK (ann10 [mkCard ''10'' ''S'', mkCard ''6'' ''H''])
     = Inr ([''h''], deckK\<lparr>deck := [mkCard ''3'' ''D'']\<rparr>, doubled)
   \<and> calcScr (hands doubled ! 0) = 26
   \<and> length (cards (hands doubled ! 0)) = 3
   \<and> hdlLoop rnd0 [''h''] (deckK\<lparr>deck := [mkCard ''3'' ''D'']\<rparr>) doubled 0
       = Inr ([''h''], deckK\<lparr>deck := [mkCard ''3'' ''D'']\<rparr>, doubled)"
proof -
  have "hdlLoop rnd0 [''d'', ''h''] deckK (ann10 [mkCard ''10'' ''S'', mkCard ''6'' ''H'']) 0
        = hdlLoop rnd0 [''h''] (deckK\<lparr>deck := [mkCard ''3'' ''D'']\<rparr>) doubled 1"
    using double_down_terminal [where p = "ann10 [mkCard ''10'' ''S'', mkCard ''6'' ''H'']"
        and it = 0 and raw = "''d''" and rest = "[''h'']" and rnd = rnd0 and G = deckK
        and Ga = "deckK\<lparr>deck := [mkCard ''3'' ''D'']\<rparr>" and d = "mkCard ''K'' ''D''"]
      prompt_10_6 draw_deckK
    by (simp add: toupper_examples canDbl_def)
       (simp add: ann10_def ann_def mkHand_def doubled_def)
  then have r: "hdlPlay rnd0 [''d'', ''h''] deckK (ann10 [mkCard ''10'' ''S'', mkCard ''6'' ''H''])
     = Inr ([''h''], deckK\<lparr>deck := [mkCard ''3'' ''D'']\<rparr>, doubled)"
    by (simp only: after_double hdlPlay_def)
  have "\<forall>h \<in> set (hands doubled). ddown h \<longrightarrow> length (cards h) = 3"
    using double_down_terminal [where p = "ann10 [mkCard ''10'' ''S'', mkCard ''6'' ''H'']"
        and it = 0 and inp = "[''d'', ''h'']" and rnd = rnd0 and G = deckK
        and hnd = "mkHand [mkCard ''10'' ''S'', mkCard ''6'' ''H''] 10"
        and inp' = "[''h'']" and G' = "deckK\<lparr>deck := [mkCard ''3'' ''D'']\<rparr>" and p' = doubled] r
    by (simp add: ann10_def)
  then have l: "length (cards (hands doubled ! 0)) = 3" by (simp add: doubled_def)
  have "hdlLoop rnd0 [''h''] (deckK\<lparr>deck := [mkCard ''3'' ''D'']\<rparr>) doubled 0
        = hdlLoop rnd0 [''h''] (deckK\<lparr>deck := [mkCard ''3'' ''D'']\<rparr>) doubled 1"
    using double_down_terminal [where p = doubled and it = 0 and inp = "[''h'']" and rnd = rnd0
        and G = "deckK\<lparr>deck := [mkCard ''3'' ''D'']\<rparr>"]
    by (simp add: doubled_def)
  then have "hdlLoop rnd0 [''h''] (deckK\<lparr>deck := [mkCard ''3'' ''D'']\<rparr>) doubled 0
       = Inr ([''h''], deckK\<lparr>deck := [mkCard ''3'' ''D'']\<rparr>, doubled)"
    by (simp only: after_double)
  with r score_doubled l show ?thesis by simp
qed

lemma calcScr_two_aces:
  "cards h = [ca, cb] \<Longrightarrow> rank ca = ''A'' \<Longrightarrow> rank cb = ''A'' \<Longrightarrow> calcScr h = 12"
  by (simp add: calcScr_def accum_def Let_def adjust.simps)

lemma calcScr_one_ace:
  "cards h = [c] \<Longrightarrow> rank c = ''A'' \<Longrightarrow> calcScr h = 11"
  by (simp add: calcScr_def accum_def Let_def adjust.simps)

lemma dealCrd_succeeds:
  assumes "deck G \<noteq> [] \<or> disPile G \<noteq> []"
  shows "\<exists>G1 d1. dealCrd rnd G [] = Inr (G1, [d1])"
proof (cases "deck G = []")
  case False
  from dealCrd_nonempty [OF this, of rnd "[]"] show ?thesis by simp
next
  case True
  with assms have "disPile G \<noteq> []" by simp
  from dealCrd_refill [OF True this, of rnd "[]"] show ?thesis by auto
qed

lemma nth_behind:
  "it < length hs \<Longrightarrow> (take it hs @ a # b # rest) ! Suc it = b"
  by (simp add: nth_append)

text \<open>
  C3. The code does not make split aces stand. A player has one hand when the decision
  phase starts, so an accepted split is a split of the last hand of the list: after the
  card for the original hand is drawn, the second draw goes through \<open>end()\<close> and the
  behaviour is undefined (with an empty supply the first draw raises
  \<open>SupplyExhausted\<close>). No run of the program returns from the split with two hands
  that stand. Where the code is defined, with another hand behind the split one, the
  new hand receives no card at all: it holds one ace, so the guard of lines 458-463,
  which asks for a flagged hand of two aces, lets it through to the prompt, and a hit
  there draws a card into it.
\<close>

theorem split_aces_as_coded:
  "(hands p = [hnd] \<and> cards hnd = [ca, cb] \<and> rank ca = ''A'' \<and> rank cb = ''A''
      \<and> \<not> isplit hnd \<and> \<not> ddown hnd \<and> bet hnd \<le> chips p \<and> map toupper raw = ''P'' \<longrightarrow>
      hdlPlay rnd (raw # rest) G p
        = (if deck G = [] \<and> disPile G = [] then Inl SupplyExhausted else Inl Undefined))
   \<and> (Suc it < length (hands p) \<and> cards (hands p ! it) = [ca, cb]
        \<and> rank ca = ''A'' \<and> rank cb = ''A''
        \<and> \<not> isplit (hands p ! it) \<and> \<not> ddown (hands p ! it) \<and> bet (hands p ! it) \<le> chips p
        \<and> map toupper raw = ''P''
        \<and> dealCrd rnd G [] = Inr (Ga, [da]) \<and> dealCrd rnd Ga [] = Inr (Gb, [db]) \<longrightarrow>
        (let newHnd = \<lparr>cards = [cb], bet = bet (hands p ! it), isplit = True, ddown = False\<rparr>;
             p' = p\<lparr>chips := chips p - bet (hands p ! it),
                    hands := take it (hands p)
                      @ [(hands p ! it)\<lparr>cards := [ca, da]\<rparr>, newHnd,
                         (hands p ! Suc it)\<lparr>cards := cards (hands p ! Suc it) @ [db]\<rparr>]
                      @ drop (Suc (Suc it)) (hands p)\<rparr>
         in hdlLoop rnd (raw # rest) G p it = hdlLoop rnd rest Gb p' (Suc it)
            \<and> hands p' ! Suc it = newHnd
            \<and> atPrompt p' (Suc it)
            \<and> (map toupper nxt = ''H'' \<and> dealCrd rnd Gb [] = Inr (Gc, [dc]) \<longrightarrow>
                 playHand rnd (nxt # later) Gb p' (Suc it)
                   = playHand rnd later Gc
                       (p'\<lparr>hands := (hands p')[Suc it := newHnd\<lparr>cards := [cb, dc]\<rparr>]\<rparr>) (Suc it))))"
proof (intro conjI impI)
  assume a: "hands p = [hnd] \<and> cards hnd = [ca, cb] \<and> rank ca = ''A'' \<and> rank cb = ''A''
      \<and> \<not> isplit hnd \<and> \<not> ddown hnd \<and> bet hnd \<le> chips p \<and> map toupper raw = ''P''"
  then have hs: "hands p = [hnd]" and cs: "cards hnd = [ca, cb]" and r: "rank ca = ''A''" "rank cb = ''A''"
    and fl: "\<not> isplit hnd" "\<not> ddown hnd" and funds: "bet (hands p ! 0) \<le> chips p"
    and ch: "map toupper raw = ''P''" by simp_all
  from calcScr_two_aces [OF cs r] hs fl have pr: "atPrompt p 0" by (simp add: atPrompt_def)
  from hs cs r fl have el: "canSplt (hands p ! 0)" by (simp add: canSplt_def)
  from hs have lst: "Suc 0 = length (hands p)" by simp
  show "hdlPlay rnd (raw # rest) G p
        = (if deck G = [] \<and> disPile G = [] then Inl SupplyExhausted else Inl Undefined)"
  proof (cases "deck G = [] \<and> disPile G = []")
    case True
    then have "dealCrd rnd G [] = Inl SupplyExhausted" by (simp add: dealCrd_exhausted)
    from hdlLoop_split_failed [OF pr ch el funds disjI1, OF this] True show ?thesis
      by (simp add: hdlPlay_def)
  next
    case False
    then have "deck G \<noteq> [] \<or> disPile G \<noteq> []" by simp
    from dealCrd_succeeds [OF this] obtain G1 d1 where "dealCrd rnd G [] = Inr (G1, [d1])" by blast
    from hdlLoop_split_last [OF pr ch el funds lst this] False show ?thesis
      by (simp add: hdlPlay_def)
  qed
next
  assume a: "Suc it < length (hands p) \<and> cards (hands p ! it) = [ca, cb]
        \<and> rank ca = ''A'' \<and> rank cb = ''A''
        \<and> \<not> isplit (hands p ! it) \<and> \<not> ddown (hands p ! it) \<and> bet (hands p ! it) \<le> chips p
        \<and> map toupper raw = ''P''
        \<and> dealCrd rnd G [] = Inr (Ga, [da]) \<and> dealCrd rnd Ga [] = Inr (Gb, [db])"
  then have nx: "Suc it < length (hands p)" and cs: "cards (hands p ! it) = [ca, cb]"
    and r: "rank ca = ''A''" "rank cb = ''A''"
    and fl: "\<not> isplit (hands p ! it)" "\<not> ddown (hands p ! it)"
    and funds: "bet (hands p ! it) \<le> chips p" and ch: "map toupper raw = ''P''"
    and d1: "dealCrd rnd G [] = Inr (Ga, [da])" and d2: "dealCrd rnd Ga [] = Inr (Gb, [db])"
    by simp_all
  from nx have it: "it < length (hands p)" by simp
  from calcScr_two_aces [OF cs r] it fl have pr: "atPrompt p it" by (simp add: atPrompt_def)
  from cs r fl have el: "canSplt (hands p ! it)" by (simp add: canSplt_def)
  define newHnd where "newHnd = \<lparr>cards = [cb], bet = bet (hands p ! it), isplit = True, ddown = False\<rparr>"
  define p' where "p' = p\<lparr>chips := chips p - bet (hands p ! it),
                    hands := take it (hands p)
                      @ [(hands p ! it)\<lparr>cards := [ca, da]\<rparr>, newHnd,
                         (hands p ! Suc it)\<lparr>cards := cards (hands p ! Suc it) @ [db]\<rparr>]
                      @ drop (Suc (Suc it)) (hands p)\<rparr>"
  have e: "hdlLoop rnd (raw # rest) G p it = hdlLoop rnd rest Gb p' (Suc it)"
    using hdlLoop_split [OF pr ch el funds nx d1 d2, of rest] cs
    by (simp add: p'_def newHnd_def)
  have n: "hands p' ! Suc it = newHnd"
    using it by (simp add: p'_def nth_behind)
  have s: "calcScr newHnd = 11"
    by (rule calcScr_one_ace [OF _ r(2)]) (simp add: newHnd_def)
  have l: "Suc it < length (hands p')" using nx by (simp add: p'_def)
  from n s l have q: "atPrompt p' (Suc it)" by (simp add: atPrompt_def newHnd_def)
  have h: "playHand rnd (nxt # later) Gb p' (Suc it)
                   = playHand rnd later Gc
                       (p'\<lparr>hands := (hands p')[Suc it := newHnd\<lparr>cards := [cb, dc]\<rparr>]\<rparr>) (Suc it)"
    if "map toupper nxt = ''H''" and d3: "dealCrd rnd Gb [] = Inr (Gc, [dc])"
  proof -
    have "dealCrd rnd Gb [cb] = Inr (Gc, [cb, dc])"
      by (subst dealCrd_trg) (simp add: d3)
    then have "playHit rnd Gb newHnd = Inr (Gc, newHnd\<lparr>cards := [cb, dc]\<rparr>)"
      by (simp add: playHit_def newHnd_def)
    with that(1) n s show ?thesis
      by (subst playHand_Cons) simp_all
  qed
  from e n q h
  show "let newHnd = \<lparr>cards = [cb], bet = bet (hands p ! it), isplit = True, ddown = False\<rparr>;
             p' = p\<lparr>chips := chips p - bet (hands p ! it),
                    hands := take it (hands p)
                      @ [(hands p ! it)\<lparr>cards := [ca, da]\<rparr>, newHnd,
                         (hands p ! Suc it)\<lparr>cards := cards (hands p ! Suc it) @ [db]\<rparr>]
                      @ drop (Suc (Suc it)) (hands p)\<rparr>
         in hdlLoop rnd (raw # rest) G p it = hdlLoop rnd rest Gb p' (Suc it)
            \<and> hands p' ! Suc it = newHnd
            \<and> atPrompt p' (Suc it)
            \<and> (map toupper nxt = ''H'' \<and> dealCrd rnd Gb [] = Inr (Gc, [dc]) \<longrightarrow>
                 playHand rnd (nxt # later) Gb p' (Suc it)
                   = playHand rnd later Gc
                       (p'\<lparr>hands := (hands p')[Suc it := newHnd\<lparr>cards := [cb, dc]\<rparr>]\<rparr>) (Suc it))"
    unfolding Let_def newHnd_def [symmetric] p'_def [symmetric]
    by (intro conjI impI) simp_all
qed

lemma toupper_capitals:
  "toupper CHR ''P'' = CHR ''P''" "toupper CHR ''H'' = CHR ''H''" "toupper CHR ''S'' = CHR ''S''"
  by code_simp+

lemma round_split_aces:
  "tryRound rnd0 [10] [''P'', ''H'', ''S'', ''S'']
     (shoeAfter [mkCard ''A'' ''S'', mkCard ''9'' ''H'', mkCard ''A'' ''H'', mkCard ''7'' ''D'',
                 mkCard ''5'' ''C'', mkCard ''6'' ''D'', mkCard ''K'' ''D'', mkCard ''3'' ''D''])
     [bob] dealer0
   = UndefinedRun"
  by code_simp

lemma draws_deck4:
  "dealCrd rnd0 (noCards\<lparr>deck := [mkCard ''5'' ''C'', mkCard ''6'' ''D'', mkCard ''K'' ''D'', mkCard ''3'' ''D'']\<rparr>) []
     = Inr (noCards\<lparr>deck := [mkCard ''6'' ''D'', mkCard ''K'' ''D'', mkCard ''3'' ''D'']\<rparr>, [mkCard ''5'' ''C''])"
  "dealCrd rnd0 (noCards\<lparr>deck := [mkCard ''6'' ''D'', mkCard ''K'' ''D'', mkCard ''3'' ''D'']\<rparr>) []
     = Inr (noCards\<lparr>deck := [mkCard ''K'' ''D'', mkCard ''3'' ''D'']\<rparr>, [mkCard ''6'' ''D''])"
  by code_simp+

lemma after_split_aces:
  "hdlLoop rnd0 [''H'', ''S'', ''S''] (noCards\<lparr>deck := [mkCard ''K'' ''D'', mkCard ''3'' ''D'']\<rparr>)
     \<lparr>pid = 1, name = ''Ann'', chips = 980,
      hands = [mkHand [mkCard ''A'' ''S'', mkCard ''5'' ''C''] 10,
               \<lparr>cards = [mkCard ''A'' ''H''], bet = 10, isplit = True, ddown = False\<rparr>,
               mkHand [mkCard ''9'' ''C'', mkCard ''8'' ''D'', mkCard ''6'' ''D''] 10]\<rparr> 1
   = Inr ([''S'', ''S''], noCards\<lparr>deck := [mkCard ''3'' ''D'']\<rparr>,
     \<lparr>pid = 1, name = ''Ann'', chips = 980,
      hands = [mkHand [mkCard ''A'' ''S'', mkCard ''5'' ''C''] 10,
               \<lparr>cards = [mkCard ''A'' ''H'', mkCard ''K'' ''D''], bet = 10, isplit = True, ddown = False\<rparr>,
               mkHand [mkCard ''9'' ''C'', mkCard ''8'' ''D'', mkCard ''6'' ''D''] 10]\<rparr>)"
  by code_simp

theorem split_aces_as_coded_witness:
  "hdlPlay rnd0 [''P'', ''H'', ''S'', ''S'']
     (noCards\<lparr>deck := [mkCard ''5'' ''C'', mkCard ''6'' ''D'', mkCard ''K'' ''D'', mkCard ''3'' ''D'']\<rparr>)
     (ann10 [mkCard ''A'' ''S'', mkCard ''A'' ''H''])
   = Inl Undefined
   \<and> tryRound rnd0 [10] [''P'', ''H'', ''S'', ''S'']
       (shoeAfter [mkCard ''A'' ''S'', mkCard ''9'' ''H'', mkCard ''A'' ''H'', mkCard ''7'' ''D'',
                   mkCard ''5'' ''C'', mkCard ''6'' ''D'', mkCard ''K'' ''D'', mkCard ''3'' ''D''])
       [bob] dealer0
     = UndefinedRun
   \<and> hdlLoop rnd0 [''P'', ''H'', ''S'', ''S'']
       (noCards\<lparr>deck := [mkCard ''5'' ''C'', mkCard ''6'' ''D'', mkCard ''K'' ''D'', mkCard ''3'' ''D'']\<rparr>)
       (annTwo [mkCard ''A'' ''S'', mkCard ''A'' ''H'']) 0
     = Inr ([''S'', ''S''], noCards\<lparr>deck := [mkCard ''3'' ''D'']\<rparr>,
         \<lparr>pid = 1, name = ''Ann'', chips = 980,
          hands = [mkHand [mkCard ''A'' ''S'', mkCard ''5'' ''C''] 10,
                   \<lparr>cards = [mkCard ''A'' ''H'', mkCard ''K'' ''D''], bet = 10,
                    isplit = True, ddown = False\<rparr>,
                   mkHand [mkCard ''9'' ''C'', mkCard ''8'' ''D'', mkCard ''6'' ''D''] 10]\<rparr>)"
proof (intro conjI)
  show "hdlPlay rnd0 [''P'', ''H'', ''S'', ''S'']
     (noCards\<lparr>deck := [mkCard ''5'' ''C'', mkCard ''6'' ''D'', mkCard ''K'' ''D'', mkCard ''3'' ''D'']\<rparr>)
     (ann10 [mkCard ''A'' ''S'', mkCard ''A'' ''H''])
   = Inl Undefined"
    using split_aces_as_coded [where p = "ann10 [mkCard ''A'' ''S'', mkCard ''A'' ''H'']"
        and hnd = "mkHand [mkCard ''A'' ''S'', mkCard ''A'' ''H''] 10"
        and ca = "mkCard ''A'' ''S''" and cb = "mkCard ''A'' ''H''"
        and raw = "''P''" and rest = "[''H'', ''S'', ''S'']" and rnd = rnd0
        and G = "noCards\<lparr>deck := [mkCard ''5'' ''C'', mkCard ''6'' ''D'', mkCard ''K'' ''D'', mkCard ''3'' ''D'']\<rparr>"]
    by (simp add: toupper_capitals ann10_def mkCard_def)
  show "tryRound rnd0 [10] [''P'', ''H'', ''S'', ''S'']
       (shoeAfter [mkCard ''A'' ''S'', mkCard ''9'' ''H'', mkCard ''A'' ''H'', mkCard ''7'' ''D'',
                   mkCard ''5'' ''C'', mkCard ''6'' ''D'', mkCard ''K'' ''D'', mkCard ''3'' ''D''])
       [bob] dealer0
     = UndefinedRun"
    by (rule round_split_aces)
  have "hdlLoop rnd0 [''P'', ''H'', ''S'', ''S'']
       (noCards\<lparr>deck := [mkCard ''5'' ''C'', mkCard ''6'' ''D'', mkCard ''K'' ''D'', mkCard ''3'' ''D'']\<rparr>)
       (annTwo [mkCard ''A'' ''S'', mkCard ''A'' ''H'']) 0
     = hdlLoop rnd0 [''H'', ''S'', ''S''] (noCards\<lparr>deck := [mkCard ''K'' ''D'', mkCard ''3'' ''D'']\<rparr>)
         \<lparr>pid = 1, name = ''Ann'', chips = 980,
          hands = [mkHand [mkCard ''A'' ''S'', mkCard ''5'' ''C''] 10,
                   \<lparr>cards = [mkCard ''A'' ''H''], bet = 10, isplit = True, ddown = False\<rparr>,
                   mkHand [mkCard ''9'' ''C'', mkCard ''8'' ''D'', mkCard ''6'' ''D''] 10]\<rparr> 1"
    using split_aces_as_coded [where p = "annTwo [mkCard ''A'' ''S'', mkCard ''A'' ''H'']"
        and it = 0 and ca = "mkCard ''A'' ''S''" and cb = "mkCard ''A'' ''H''"
        and raw = "''P''" and rest = "[''H'', ''S'', ''S'']" and rnd = rnd0
        and G = "noCards\<lparr>deck := [mkCard ''5'' ''C'', mkCard ''6'' ''D'', mkCard ''K'' ''D'', mkCard ''3'' ''D'']\<rparr>"
        and Ga = "noCards\<lparr>deck := [mkCard ''6'' ''D'', mkCard ''K'' ''D'', mkCard ''3'' ''D'']\<rparr>"
        and da = "mkCard ''5'' ''C''"
        and Gb = "noCards\<lparr>deck := [mkCard ''K'' ''D'', mkCard ''3'' ''D'']\<rparr>"
        and db = "mkCard ''6'' ''D''" and nxt = "''H''" and later = "[]"
        and Gc = noCards and dc = "mkCard ''K'' ''D''"
        and hnd = "mkHand [] 0"]
      draws_deck4
    by (simp add: toupper_capitals annTwo_def ann_def Let_def mkHand_def)
       (simp add: mkCard_def)
  then show "hdlLoop rnd0 [''P'', ''H'', ''S'', ''S'']
       (noCards\<lparr>deck := [mkCard ''5'' ''C'', mkCard ''6'' ''D'', mkCard ''K'' ''D'', mkCard ''3'' ''D'']\<rparr>)
       (annTwo [mkCard ''A'' ''S'', mkCard ''A'' ''H'']) 0
     = Inr ([''S'', ''S''], noCards\<lparr>deck := [mkCard ''3'' ''D'']\<rparr>,
         \<lparr>pid = 1, name = ''Ann'', chips = 980,
          hands = [mkHand [mkCard ''A'' ''S'', mkCard ''5'' ''C''] 10,
                   \<lparr>cards = [mkCard ''A'' ''H'', mkCard ''K'' ''D''], bet = 10,
                    isplit = True, ddown = False\<rparr>,
                   mkHand [mkCard ''9'' ''C'', mkCard ''8'' ''D'', mkCard ''6'' ''D''] 10]\<rparr>)"
    by (simp only: after_split_aces)
qed







section \<open>Wagers and settlement\<close>

lemma readBet_valid:
  "readBet limit ints = Inr (betAmt, ints') \<Longrightarrow> 1 \<le> betAmt \<and> betAmt \<le> limit"
  by (induction ints) (auto split: if_splits)

lemma betsNonneg_update:
  assumes "betsNonneg p" and "0 \<le> bet h"
  shows "betsNonneg (p\<lparr>hands := (hands p)[it := h]\<rparr>)"
  using assms by (auto simp: betsNonneg_def dest!: set_update_subset_insert [THEN subsetD])

lemma playHand_betsNonneg:
  "playHand rnd inp G p it = Inr (inp', G', p', it', split) \<Longrightarrow> it < length (hands p) \<Longrightarrow>
   betsNonneg p \<Longrightarrow> betsNonneg p'"
proof (induction inp arbitrary: G p)
  case Nil
  then show ?case
    by (cases "calcScr (hands p ! it) < 21") (simp_all add: playHand_Nil playHand_over)
next
  case (Cons raw rest)
  from Cons.prems(2,3) have b: "0 \<le> bet (hands p ! it)" by (simp add: betsNonneg_def)
  show ?case
  proof (cases "calcScr (hands p ! it) < 21")
    case False
    with Cons.prems show ?thesis by (simp add: playHand_over)
  next
    case True
    note eq = Cons.prems(1) [unfolded playHand_Cons [OF True]]
    consider (H) "map toupper raw = ''H''"
      | (S) "map toupper raw \<noteq> ''H''" "map toupper raw = ''S''"
      | (D) "map toupper raw = ''D''" "canDbl p (hands p ! it)"
      | (P) "map toupper raw = ''P''" "canSplt (hands p ! it)"
      | (other) "map toupper raw \<noteq> ''H''" "map toupper raw \<noteq> ''S''"
          "\<not> (map toupper raw = ''D'' \<and> canDbl p (hands p ! it))"
          "\<not> (map toupper raw = ''P'' \<and> canSplt (hands p ! it))"
      by blast
    then show ?thesis
    proof cases
      case H
      with eq obtain G1 hand1 where
        ph: "playHit rnd G (hands p ! it) = Inr (G1, hand1)" and
        r: "playHand rnd rest G1 (p\<lparr>hands := (hands p)[it := hand1]\<rparr>) it = Inr (inp', G', p', it', split)"
        by (auto split: sum.splits)
      from playHit_hands [OF ph] b have "0 \<le> bet hand1" by simp
      with Cons.prems(3) have "betsNonneg (p\<lparr>hands := (hands p)[it := hand1]\<rparr>)"
        by (rule betsNonneg_update)
      from Cons.IH [OF r _ this] Cons.prems(2) show ?thesis by simp
    next
      case S
      with eq Cons.prems(3) show ?thesis by simp
    next
      case D
      from D(2) have two: "length (cards (hands p ! it)) = 2" and funds: "bet (hands p ! it) \<le> chips p"
        by (simp_all add: canDbl_def)
      from D eq have pd: "playDD rnd G p it = Inr (G', p')" by (auto split: sum.splits)
      show ?thesis
      proof (cases "dealCrd rnd G []")
        case (Inl e)
        then have "dealCrd rnd G (cards (hands p ! it)) = Inl e" by (subst dealCrd_trg) simp
        with pd two funds show ?thesis by (simp add: playDD_def Let_def playHit_def)
      next
        case (Inr r1)
        obtain G1 cs1 where r1: "r1 = (G1, cs1)" by (cases r1)
        from dealCrd_Inr [OF Inr [unfolded r1]] obtain d1 where cs1: "cs1 = [d1]" by auto
        from playDD_done [OF two funds Inr [unfolded r1 cs1]] pd
        have "p' = (p\<lparr>chips := chips p - bet (hands p ! it)\<rparr>)\<lparr>hands := (hands p)[it := (hands p ! it)\<lparr>bet := bet (hands p ! it) * 2,
                                           ddown := True,
                                           cards := cards (hands p ! it) @ [d1]\<rparr>]\<rparr>"
          by simp
        moreover have "betsNonneg (p\<lparr>chips := chips p - bet (hands p ! it)\<rparr>)"
          using Cons.prems(3) by (simp add: betsNonneg_def)
        ultimately show ?thesis
          using b betsNonneg_update [of "p\<lparr>chips := chips p - bet (hands p ! it)\<rparr>"
              "(hands p ! it)\<lparr>bet := bet (hands p ! it) * 2, ddown := True,
                                           cards := cards (hands p ! it) @ [d1]\<rparr>" it]
          by simp
      qed
    next
      case P
      with eq have ps: "playSplt rnd G p it = Inr (G', p', it')" by (auto split: sum.splits)
      from playSplt_cases [OF Cons.prems(2) ps] show ?thesis
      proof
        assume "G' = G \<and> p' = p \<and> it' = it"
        with Cons.prems(3) show ?thesis by simp
      next
        assume "Suc it < length (hands p) \<and> it' = Suc it
             \<and> (\<exists>c d. hands p' = take it (hands p)
                   @ [(hands p ! it)\<lparr>cards := c\<rparr>,
                      \<lparr>cards = [cards (hands p ! it) ! 1], bet = bet (hands p ! it),
                       isplit = True, ddown = False\<rparr>,
                      (hands p ! Suc it)\<lparr>cards := d\<rparr>]
                   @ drop (Suc (Suc it)) (hands p))"
        then obtain c d where nxt: "Suc it < length (hands p)"
          and h: "hands p' = take it (hands p)
                   @ [(hands p ! it)\<lparr>cards := c\<rparr>,
                      \<lparr>cards = [cards (hands p ! it) ! 1], bet = bet (hands p ! it),
                       isplit = True, ddown = False\<rparr>,
                      (hands p ! Suc it)\<lparr>cards := d\<rparr>]
                   @ drop (Suc (Suc it)) (hands p)" by blast
        from nxt Cons.prems(3) have b2: "0 \<le> bet (hands p ! Suc it)" by (simp add: betsNonneg_def)
        show ?thesis
          unfolding betsNonneg_def h
          using b b2 Cons.prems(3)
          by (auto simp: betsNonneg_def dest: in_set_takeD in_set_dropD)
      qed
    next
      case other
      with eq have "playHand rnd rest G p it = Inr (inp', G', p', it', split)" by auto
      from Cons.IH [OF this Cons.prems(2,3)] show ?thesis .
    qed
  qed
qed

lemma hdlLoop_betsNonneg:
  assumes "hdlLoop rnd inp G p it = Inr (inp', G', p')" and "betsNonneg p"
  shows "betsNonneg p'"
proof -
  have "\<exists>k::nat. betsNonneg p'"
  proof (rule hdlLoop_invariant [where I = "\<lambda>p it. betsNonneg p", OF _ _ assms])
    fix rnd inp G p it inp' G' p' it' split
    assume "it < length (hands p)" "betsNonneg p"
      "playHand rnd inp G p it = Inr (inp', G', p', it', split)"
    then show "betsNonneg p'"
      using playHand_betsNonneg by blast
  qed
  then show ?thesis by simp
qed












section \<open>Exhaustion of the supply\<close>

lemma playHit_Inl: "playHit rnd G h = Inl e \<longleftrightarrow> dealCrd rnd G (cards h) = Inl e"
  by (simp add: playHit_def split: sum.splits prod.splits)

lemma createDk_fresh:
  "deck (createDk n G) = concat (replicate (nat n) oneDeck) \<and> disPile (createDk n G) = []"
  by (simp add: createDk_def)

text \<open>A draw that fails in the decision phase ends the decision phase.\<close>

lemma hdlLoop_hit_failed:
  assumes pr: "atPrompt p it" and ch: "map toupper raw = ''H''"
    and d: "dealCrd rnd G (cards (hands p ! it)) = Inl e"
  shows "hdlLoop rnd (raw # rest) G p it = Inl e"
proof -
  from pr have s: "calcScr (hands p ! it) < 21" by (simp add: atPrompt_def)
  have "playHand rnd (raw # rest) G p it = Inl e"
    using ch d by (simp add: playHand_Cons [OF s] playHit_def)
  then show ?thesis by (simp add: hdlLoop_prompt [OF pr])
qed

lemma hdlLoop_double_failed:
  assumes pr: "atPrompt p it" and ch: "map toupper raw = ''D''"
    and el: "canDbl p (hands p ! it)"
    and d: "dealCrd rnd G (cards (hands p ! it)) = Inl e"
  shows "hdlLoop rnd (raw # rest) G p it = Inl e"
proof -
  from pr have s: "calcScr (hands p ! it) < 21" by (simp add: atPrompt_def)
  from el have "playDD rnd G p it = Inl e"
    using d by (simp add: playDD_def canDbl_def Let_def playHit_def)
  then have "playHand rnd (raw # rest) G p it = Inl e"
    using ch el by (simp add: playHand_Cons [OF s])
  then show ?thesis by (simp add: hdlLoop_prompt [OF pr])
qed

lemma hdlLoop_playHand_failed:
  "atPrompt p it \<Longrightarrow> playHand rnd inp G p it = Inl e \<Longrightarrow> hdlLoop rnd inp G p it = Inl e"
  by (simp add: hdlLoop_prompt)

lemma playHand_hit:
  assumes "calcScr (hands p ! it) < 21" and "map toupper raw = ''H''"
    and "dealCrd rnd G (cards (hands p ! it)) = Inr (Ga, cs)"
  shows "playHand rnd (raw # rest) G p it
         = playHand rnd rest Ga (p\<lparr>hands := (hands p)[it := (hands p ! it)\<lparr>cards := cs\<rparr>]\<rparr>) it"
  using assms(2,3) by (simp add: playHand_Cons [OF assms(1)] playHit_def)

text \<open>The loop over the queue: a decision phase that fails ends it, another one goes on.\<close>

lemma actionPhase_failed:
  assumes "playQue G = q # qs" and "hdlPlay rnd inp (G\<lparr>playQue := qs\<rparr>) (plyrs ! q) = Inl e"
  shows "actionPhase rnd inp G plyrs False = Inl e"
  using assms by (subst actionPhase.simps) simp

lemma actionPhase_next:
  assumes "playQue G = q # qs"
    and "hdlPlay rnd inp (G\<lparr>playQue := qs\<rparr>) (plyrs ! q) = Inr (inp', G', p')"
  shows "actionPhase rnd inp G plyrs False = actionPhase rnd inp' G' (plyrs[q := p']) False"
  using assms by (subst actionPhase.simps) simp

lemma dealRound_failed:
  "dealCrd rnd G (cards (hands (plyrs ! q) ! 0)) = Inl e \<Longrightarrow> dealRound rnd G plyrs (q # tempQ) = Inl e"
  by (simp add: Let_def)

lemma dealDealer_failed:
  "dealDealer rnd G dealr = Inl e \<longleftrightarrow> dealCrd rnd G (cards (hands dealr ! 0)) = Inl e"
  by (simp add: dealDealer_def split: sum.splits prod.splits)

lemma initialDeal_Inl:
  "initialDeal rnd G plyrs dealr = Inl e \<longleftrightarrow>
     dealRound rnd G plyrs (playQue G) = Inl e
     \<or> (\<exists>G1 plyrs1. dealRound rnd G plyrs (playQue G) = Inr (G1, plyrs1)
          \<and> (dealDealer rnd G1 dealr = Inl e
              \<or> (\<exists>G2 dealr2. dealDealer rnd G1 dealr = Inr (G2, dealr2)
                   \<and> (dealRound rnd G2 plyrs1 (playQue G2) = Inl e
                       \<or> (\<exists>G3 plyrs3. dealRound rnd G2 plyrs1 (playQue G2) = Inr (G3, plyrs3)
                            \<and> dealDealer rnd G3 dealr2 = Inl e)))))"
  by (auto simp: initialDeal_def split: sum.splits)

lemma beforeSettle_Inl:
  "beforeSettle rnd ints inp G plyrs dealr = Inl e \<longleftrightarrow>
     placeBets ints (reshufCheck rnd G) plyrs 0 = Inl e
     \<or> (\<exists>ints' G2 plyrs2. placeBets ints (reshufCheck rnd G) plyrs 0 = Inr (ints', G2, plyrs2)
          \<and> (initialDeal rnd G2 plyrs2 dealr = Inl e
              \<or> (\<exists>G3 plyrs3 dealr3. initialDeal rnd G2 plyrs2 dealr = Inr (G3, plyrs3, dealr3)
                   \<and> (actionPhase rnd inp G3 plyrs3 (is_nat (hands dealr3 ! 0)) = Inl e
                       \<or> (\<exists>inp' G4 plyrs4.
                             actionPhase rnd inp G3 plyrs3 (is_nat (hands dealr3 ! 0))
                               = Inr (inp', G4, plyrs4)
                             \<and> dealerPlay rnd G4 (hands dealr3 ! 0) (is_nat (hands dealr3 ! 0))
                                 = Inl e)))))"
  by (auto simp: beforeSettle_def Let_def split: sum.splits)

text \<open>The settlement draws no card: it never raises \<open>SupplyExhausted\<close>.\<close>

lemma int32_Inl: "int32 x = Inl e \<Longrightarrow> e = Undefined"
  by (simp add: int32_def split: if_splits)

lemma addChips_Inl: "addChips p amt = Inl e \<Longrightarrow> amt = Inl e \<or> e = Undefined"
  by (auto simp: addChips_def split: sum.splits dest: int32_Inl)

lemma setHnd_Inl: "setHnd G p i dlHnd = Inl e \<Longrightarrow> e = Undefined"
  by (auto simp: setHnd_def Let_def winAmt_of_def split: if_splits sum.splits prod.splits
        dest!: addChips_Inl dest: int32_Inl)

lemma settleHand_Inl: "settleHand G p i dlHnd = Inl e \<Longrightarrow> e = Undefined"
  by (auto simp: settleHand_def split: if_splits prod.splits dest: setHnd_Inl)

lemma settleHands_Inl: "settleHands G p dlHnd is = Inl e \<Longrightarrow> e = Undefined"
  by (induction "is" arbitrary: G p) (auto split: sum.splits dest: settleHand_Inl)

lemma settlePlayer_Inl: "settlePlayer G p dlHnd = Inl e \<Longrightarrow> e = Undefined"
  by (auto simp: settlePlayer_def split: sum.splits dest: settleHands_Inl)

lemma settleAll_Inl: "settleAll G plyrs dlHnd = Inl e \<Longrightarrow> e = Undefined"
  by (induction plyrs arbitrary: G) (auto split: sum.splits dest: settlePlayer_Inl)

lemma finalSettle_Inl: "finalSettle G plyrs dealr dealrH = Inl e \<Longrightarrow> e = Undefined"
  by (auto simp: finalSettle_def split: sum.splits prod.splits dest: settleAll_Inl)

lemma playRnd_exhausted:
  "playRnd rnd ints inp G plyrs dealr = Inl SupplyExhausted
   \<longleftrightarrow> beforeSettle rnd ints inp G plyrs dealr = Inl SupplyExhausted"
  by (auto simp: playRnd_def split: sum.splits dest: finalSettle_Inl)

lemma tryRound_CriticalError:
  "tryRound rnd ints inp G plyrs dealr = CriticalError \<longleftrightarrow>
     dropBroke plyrs \<noteq> []
     \<and> playRnd rnd ints inp (fst (resetDealer G dealr)) (dropBroke plyrs) (snd (resetDealer G dealr))
         = Inl SupplyExhausted"
  by (auto simp: tryRound_def Let_def split: prod.splits sum.splits error.splits)

text \<open>
  Too many players for the cards of the supply: the initial deal takes a card for
  every player of the queue, one for the dealer, and both again. Every draw takes one
  card from deck and discard pile together, and fails when there is none.
\<close>

lemma dealRound_Inr:
  "dealRound rnd G plyrs tempQ = Inr (G', plyrs') \<Longrightarrow>
     length (deck G') + length (disPile G') + length tempQ = length (deck G) + length (disPile G)
     \<and> playQue G' = playQue G"
proof (induction tempQ arbitrary: G plyrs)
  case Nil
  then show ?case by simp
next
  case (Cons q tempQ)
  from Cons.prems obtain G1 cs where
    d: "dealCrd rnd G (cards (hands (plyrs ! q) ! 0)) = Inr (G1, cs)"
    and r: "dealRound rnd G1
              (plyrs[q := (plyrs ! q)\<lparr>hands := (hands (plyrs ! q))[0 := (hands (plyrs ! q) ! 0)\<lparr>cards := cs\<rparr>]\<rparr>])
              tempQ = Inr (G', plyrs')"
    by (auto simp: Let_def split: sum.splits)
  from Cons.IH [OF r] dealCrd_count [OF d] dealCrd_playQue [OF d] show ?case by simp
qed

lemma dealRound_Inl: "dealRound rnd G plyrs tempQ = Inl e \<Longrightarrow> e = SupplyExhausted"
proof (induction tempQ arbitrary: G plyrs)
  case Nil
  then show ?case by simp
next
  case (Cons q tempQ)
  show ?case
  proof (cases "dealCrd rnd G (cards (hands (plyrs ! q) ! 0))")
    case (Inl e')
    with Cons.prems have "e = e'" by (simp add: Let_def)
    with dealCrd_error [OF Inl] show ?thesis by simp
  next
    case (Inr r)
    obtain G1 cs where r: "r = (G1, cs)" by (cases r)
    from Cons.prems Inr r have "dealRound rnd G1
              (plyrs[q := (plyrs ! q)\<lparr>hands := (hands (plyrs ! q))[0 := (hands (plyrs ! q) ! 0)\<lparr>cards := cs\<rparr>]\<rparr>])
              tempQ = Inl e"
      by (simp add: Let_def)
    then show ?thesis by (rule Cons.IH)
  qed
qed

lemma dealDealer_Inr:
  "dealDealer rnd G dealr = Inr (G', dealr') \<Longrightarrow>
     Suc (length (deck G') + length (disPile G')) = length (deck G) + length (disPile G)
     \<and> playQue G' = playQue G"
  by (auto simp: dealDealer_def split: sum.splits dest: dealCrd_count dealCrd_playQue)

lemma dealDealer_Inl: "dealDealer rnd G dealr = Inl e \<Longrightarrow> e = SupplyExhausted"
  by (auto simp: dealDealer_def split: sum.splits dest: dealCrd_error)

lemma initialDeal_short:
  assumes "length (deck G) + length (disPile G) < 2 * length (playQue G) + 2"
  shows "initialDeal rnd G plyrs dealr = Inl SupplyExhausted"
proof (cases "initialDeal rnd G plyrs dealr")
  case (Inl e)
  then have "e = SupplyExhausted"
    by (auto simp: initialDeal_Inl dest: dealRound_Inl dealDealer_Inl)
  with Inl show ?thesis by simp
next
  case (Inr r)
  then obtain G1 plyrs1 G2 dealr2 G3 plyrs3 G4 dealr4 where
    a: "dealRound rnd G plyrs (playQue G) = Inr (G1, plyrs1)"
    and b: "dealDealer rnd G1 dealr = Inr (G2, dealr2)"
    and c: "dealRound rnd G2 plyrs1 (playQue G2) = Inr (G3, plyrs3)"
    and d: "dealDealer rnd G3 dealr2 = Inr (G4, dealr4)"
    by (auto simp: initialDeal_def split: sum.splits)
  from dealRound_Inr [OF a] dealDealer_Inr [OF b] dealRound_Inr [OF c] dealDealer_Inr [OF d] assms
  show ?thesis by simp
qed

lemma placeBets_supply:
  "placeBets ints G plyrs i = Inr (ints', G', plyrs') \<Longrightarrow>
     deck G' = deck G \<and> disPile G' = disPile G
     \<and> length (playQue G') = length (playQue G) + (length plyrs - i)"
proof (induction ints G plyrs i rule: placeBets.induct)
  case (1 ints G plyrs i)
  note eq = "1.prems" [unfolded placeBets.simps [of ints G plyrs i]]
  show ?case
  proof (cases "i \<ge> length plyrs")
    case True
    with eq show ?thesis by simp
  next
    case False
    with eq obtain betAmt ints1 where rb: "readBet (chips (plyrs ! i)) ints = Inr (betAmt, ints1)"
      and r: "placeBets ints1 (G\<lparr>playQue := playQue G @ [i]\<rparr>)
                (plyrs[i := (plyrs ! i)\<lparr>hands := (hands (plyrs ! i) @ [emptyHand])
                                          [0 := ((hands (plyrs ! i) @ [emptyHand]) ! 0)\<lparr>bet := betAmt\<rparr>],
                                       chips := chips (plyrs ! i) - betAmt\<rparr>]) (i + 1)
              = Inr (ints', G', plyrs')"
      by (auto simp: Let_def split: sum.splits)
    from "1.IH" [OF False rb refl refl refl refl r] False show ?thesis by simp
  qed
qed

lemma playRnd_short:
  assumes "placeBets ints (reshufCheck rnd G) plyrs 0 = Inr (ints', G2, plyrs2)"
    and "length (deck (reshufCheck rnd G)) + length (disPile (reshufCheck rnd G))
         < 2 * length plyrs + 2"
  shows "playRnd rnd ints inp G plyrs dealr = Inl SupplyExhausted"
proof -
  from placeBets_supply [OF assms(1)] assms(2)
  have "length (deck G2) + length (disPile G2) < 2 * length (playQue G2) + 2" by simp
  then have "initialDeal rnd G2 plyrs2 dealr = Inl SupplyExhausted" by (rule initialDeal_short)
  with assms(1) show ?thesis by (simp add: playRnd_def beforeSettle_def)
qed

text \<open>
  C8. A draw takes the front card of the deck. With an empty deck it first moves the
  whole discard pile into the deck and shuffles it, and draws from that; with deck and
  discard pile both empty it raises \<open>SupplyExhausted\<close>. No other operation moves a
  card of the discard pile into the deck: \<open>shufDk\<close> permutes the deck and leaves the
  pile, \<open>discHnd\<close> leaves the deck, and \<open>createDk\<close> replaces the deck by new cards and
  empties the pile. The exception is caught nowhere below \<open>runGame\<close>, whose
  \<open>catch\<close> ends the session (\<open>CriticalError\<close>), and it leaves \<open>playRnd\<close> before
  any hand is settled: \<open>playRnd\<close> raises it exactly when the round raises it before
  the settlement, which draws no card and cannot raise it. The round before the
  settlement raises what its first failing phase raises; the initial deal fails with
  the first of its draws that fails; the loop over the queue fails with the decision
  phase of a player that fails, and goes on to the next player otherwise; the decision
  phase fails with a hit or a double down whose draw fails, at the first choice and,
  since a hit that draws a card goes on with the rest of the input, at a later one;
  the dealer's loop fails at an empty supply. With more players than the supply has cards for the initial deal,
  the round ends in this way.
\<close>

theorem draw_or_exhausted:
  "(deck G \<noteq> [] \<longrightarrow>
      dealCrd rnd G trgLst = Inr (G\<lparr>deck := tl (deck G)\<rparr>, trgLst @ [hd (deck G)]))
   \<and> (deck G = [] \<and> disPile G \<noteq> [] \<longrightarrow>
        (\<exists>c rest. mset (c # rest) = mset (disPile G)
           \<and> dealCrd rnd G trgLst
               = Inr (G\<lparr>deck := rest, disPile := [], nshuf := nshuf G + 1\<rparr>, trgLst @ [c])))
   \<and> (deck G = [] \<and> disPile G = [] \<longrightarrow> dealCrd rnd G trgLst = Inl SupplyExhausted)
   \<and> disPile (shufDk rnd G) = disPile G
   \<and> mset (deck (shufDk rnd G)) = mset (deck G)
   \<and> deck (fst (discHnd G hand)) = deck G
   \<and> deck (createDk n G) = concat (replicate (nat n) oneDeck)
   \<and> disPile (createDk n G) = []
   \<and> (tryRound rnd ints inp G plyrs dealr = CriticalError \<longleftrightarrow>
        dropBroke plyrs \<noteq> []
        \<and> playRnd rnd ints inp (fst (resetDealer G dealr)) (dropBroke plyrs) (snd (resetDealer G dealr))
            = Inl SupplyExhausted)
   \<and> (playRnd rnd ints inp G plyrs dealr = Inl SupplyExhausted
        \<longleftrightarrow> beforeSettle rnd ints inp G plyrs dealr = Inl SupplyExhausted)
   \<and> (finalSettle G plyrs dealr hand = Inl e \<longrightarrow> e = Undefined)
   \<and> (beforeSettle rnd ints inp G plyrs dealr = Inl e \<longleftrightarrow>
        placeBets ints (reshufCheck rnd G) plyrs 0 = Inl e
        \<or> (\<exists>ints' Ga plyrsa. placeBets ints (reshufCheck rnd G) plyrs 0 = Inr (ints', Ga, plyrsa)
             \<and> (initialDeal rnd Ga plyrsa dealr = Inl e
                 \<or> (\<exists>Gb plyrsb dealrb. initialDeal rnd Ga plyrsa dealr = Inr (Gb, plyrsb, dealrb)
                      \<and> (actionPhase rnd inp Gb plyrsb (is_nat (hands dealrb ! 0)) = Inl e
                          \<or> (\<exists>inp' Gc plyrsc.
                                actionPhase rnd inp Gb plyrsb (is_nat (hands dealrb ! 0))
                                  = Inr (inp', Gc, plyrsc)
                                \<and> dealerPlay rnd Gc (hands dealrb ! 0) (is_nat (hands dealrb ! 0))
                                    = Inl e))))))
   \<and> (initialDeal rnd G plyrs dealr = Inl e \<longleftrightarrow>
        dealRound rnd G plyrs (playQue G) = Inl e
        \<or> (\<exists>Ga plyrsa. dealRound rnd G plyrs (playQue G) = Inr (Ga, plyrsa)
             \<and> (dealDealer rnd Ga dealr = Inl e
                 \<or> (\<exists>Gb dealrb. dealDealer rnd Ga dealr = Inr (Gb, dealrb)
                      \<and> (dealRound rnd Gb plyrsa (playQue Gb) = Inl e
                          \<or> (\<exists>Gc plyrsc. dealRound rnd Gb plyrsa (playQue Gb) = Inr (Gc, plyrsc)
                               \<and> dealDealer rnd Gc dealrb = Inl e))))))
   \<and> (dealCrd rnd G (cards (hands (plyrs ! q) ! 0)) = Inl e \<longrightarrow>
        dealRound rnd G plyrs (q # tempQ) = Inl e)
   \<and> (dealDealer rnd G dealr = Inl e \<longleftrightarrow> dealCrd rnd G (cards (hands dealr ! 0)) = Inl e)
   \<and> (playQue G = q # qs \<and> hdlPlay rnd inp (G\<lparr>playQue := qs\<rparr>) (plyrs ! q) = Inl e \<longrightarrow>
        actionPhase rnd inp G plyrs False = Inl e)
   \<and> (playQue G = q # qs \<and> hdlPlay rnd inp (G\<lparr>playQue := qs\<rparr>) (plyrs ! q) = Inr (inpa, Ga, pa) \<longrightarrow>
        actionPhase rnd inp G plyrs False = actionPhase rnd inpa Ga (plyrs[q := pa]) False)
   \<and> (atPrompt p it \<and> map toupper raw = ''H''
        \<and> dealCrd rnd G (cards (hands p ! it)) = Inl e \<longrightarrow>
        hdlLoop rnd (raw # rest) G p it = Inl e)
   \<and> (atPrompt p it \<and> map toupper raw = ''D'' \<and> canDbl p (hands p ! it)
        \<and> dealCrd rnd G (cards (hands p ! it)) = Inl e \<longrightarrow>
        hdlLoop rnd (raw # rest) G p it = Inl e)
   \<and> (atPrompt p it \<and> playHand rnd inp G p it = Inl e \<longrightarrow> hdlLoop rnd inp G p it = Inl e)
   \<and> (calcScr (hands p ! it) < 21 \<and> map toupper raw = ''H''
        \<and> dealCrd rnd G (cards (hands p ! it)) = Inr (Ga, cs) \<longrightarrow>
        playHand rnd (raw # rest) G p it
          = playHand rnd rest Ga (p\<lparr>hands := (hands p)[it := (hands p ! it)\<lparr>cards := cs\<rparr>]\<rparr>) it)
   \<and> (playHit rnd G hand = Inl e \<longleftrightarrow> dealCrd rnd G (cards hand) = Inl e)
   \<and> (calcScr hand < 17 \<and> deck G = [] \<and> disPile G = [] \<longrightarrow>
        dealerLoop rnd G hand = Inl SupplyExhausted)
   \<and> (placeBets ints (reshufCheck rnd G) plyrs 0 = Inr (intsa, Gd, plyrsd)
        \<and> length (deck (reshufCheck rnd G)) + length (disPile (reshufCheck rnd G))
            < 2 * length plyrs + 2 \<longrightarrow>
        playRnd rnd ints inp G plyrs dealr = Inl SupplyExhausted)"
proof (intro conjI)
  show "(deck G \<noteq> [] \<longrightarrow>
        dealCrd rnd G trgLst = Inr (G\<lparr>deck := tl (deck G)\<rparr>, trgLst @ [hd (deck G)]))"
    by (simp add: dealCrd_nonempty)
  show "(deck G = [] \<and> disPile G \<noteq> [] \<longrightarrow>
          (\<exists>c rest. mset (c # rest) = mset (disPile G)
             \<and> dealCrd rnd G trgLst
                 = Inr (G\<lparr>deck := rest, disPile := [], nshuf := nshuf G + 1\<rparr>, trgLst @ [c])))"
    using dealCrd_refill [of G rnd trgLst] by blast
  show "(deck G = [] \<and> disPile G = [] \<longrightarrow> dealCrd rnd G trgLst = Inl SupplyExhausted)"
    by (simp add: dealCrd_exhausted)
  show "disPile (shufDk rnd G) = disPile G"
    by simp
  show "mset (deck (shufDk rnd G)) = mset (deck G)"
    by simp
  show "deck (fst (discHnd G hand)) = deck G"
    by simp
  show "deck (createDk n G) = concat (replicate (nat n) oneDeck)"
    by (simp add: createDk_def)
  show "disPile (createDk n G) = []"
    by (simp add: createDk_def)
  show "(tryRound rnd ints inp G plyrs dealr = CriticalError \<longleftrightarrow>
          dropBroke plyrs \<noteq> []
          \<and> playRnd rnd ints inp (fst (resetDealer G dealr)) (dropBroke plyrs) (snd (resetDealer G dealr))
              = Inl SupplyExhausted)"
    by (rule tryRound_CriticalError)
  show "(playRnd rnd ints inp G plyrs dealr = Inl SupplyExhausted
          \<longleftrightarrow> beforeSettle rnd ints inp G plyrs dealr = Inl SupplyExhausted)"
    by (rule playRnd_exhausted)
  show "(finalSettle G plyrs dealr hand = Inl e \<longrightarrow> e = Undefined)"
    by (auto dest: finalSettle_Inl)
  show "(beforeSettle rnd ints inp G plyrs dealr = Inl e \<longleftrightarrow>
          placeBets ints (reshufCheck rnd G) plyrs 0 = Inl e
          \<or> (\<exists>ints' Ga plyrsa. placeBets ints (reshufCheck rnd G) plyrs 0 = Inr (ints', Ga, plyrsa)
               \<and> (initialDeal rnd Ga plyrsa dealr = Inl e
                   \<or> (\<exists>Gb plyrsb dealrb. initialDeal rnd Ga plyrsa dealr = Inr (Gb, plyrsb, dealrb)
                        \<and> (actionPhase rnd inp Gb plyrsb (is_nat (hands dealrb ! 0)) = Inl e
                            \<or> (\<exists>inp' Gc plyrsc.
                                  actionPhase rnd inp Gb plyrsb (is_nat (hands dealrb ! 0))
                                    = Inr (inp', Gc, plyrsc)
                                  \<and> dealerPlay rnd Gc (hands dealrb ! 0) (is_nat (hands dealrb ! 0))
                                      = Inl e))))))"
    by (rule beforeSettle_Inl)
  show "(initialDeal rnd G plyrs dealr = Inl e \<longleftrightarrow>
          dealRound rnd G plyrs (playQue G) = Inl e
          \<or> (\<exists>Ga plyrsa. dealRound rnd G plyrs (playQue G) = Inr (Ga, plyrsa)
               \<and> (dealDealer rnd Ga dealr = Inl e
                   \<or> (\<exists>Gb dealrb. dealDealer rnd Ga dealr = Inr (Gb, dealrb)
                        \<and> (dealRound rnd Gb plyrsa (playQue Gb) = Inl e
                            \<or> (\<exists>Gc plyrsc. dealRound rnd Gb plyrsa (playQue Gb) = Inr (Gc, plyrsc)
                                 \<and> dealDealer rnd Gc dealrb = Inl e))))))"
    by (rule initialDeal_Inl)
  show "(dealCrd rnd G (cards (hands (plyrs ! q) ! 0)) = Inl e \<longrightarrow>
          dealRound rnd G plyrs (q # tempQ) = Inl e)"
    by (simp add: dealRound_failed)
  show "(dealDealer rnd G dealr = Inl e \<longleftrightarrow> dealCrd rnd G (cards (hands dealr ! 0)) = Inl e)"
    by (rule dealDealer_failed)
  show "(playQue G = q # qs \<and> hdlPlay rnd inp (G\<lparr>playQue := qs\<rparr>) (plyrs ! q) = Inl e \<longrightarrow>
          actionPhase rnd inp G plyrs False = Inl e)"
    by (simp add: actionPhase_failed)
  show "(playQue G = q # qs \<and> hdlPlay rnd inp (G\<lparr>playQue := qs\<rparr>) (plyrs ! q) = Inr (inpa, Ga, pa) \<longrightarrow>
          actionPhase rnd inp G plyrs False = actionPhase rnd inpa Ga (plyrs[q := pa]) False)"
    by (simp add: actionPhase_next)
  show "(atPrompt p it \<and> map toupper raw = ''H''
          \<and> dealCrd rnd G (cards (hands p ! it)) = Inl e \<longrightarrow>
          hdlLoop rnd (raw # rest) G p it = Inl e)"
    by (simp add: hdlLoop_hit_failed)
  show "(atPrompt p it \<and> map toupper raw = ''D'' \<and> canDbl p (hands p ! it)
          \<and> dealCrd rnd G (cards (hands p ! it)) = Inl e \<longrightarrow>
          hdlLoop rnd (raw # rest) G p it = Inl e)"
    by (simp add: hdlLoop_double_failed)
  show "(atPrompt p it \<and> playHand rnd inp G p it = Inl e \<longrightarrow> hdlLoop rnd inp G p it = Inl e)"
    by (simp add: hdlLoop_playHand_failed)
  show "(calcScr (hands p ! it) < 21 \<and> map toupper raw = ''H''
        \<and> dealCrd rnd G (cards (hands p ! it)) = Inr (Ga, cs) \<longrightarrow>
        playHand rnd (raw # rest) G p it
          = playHand rnd rest Ga (p\<lparr>hands := (hands p)[it := (hands p ! it)\<lparr>cards := cs\<rparr>]\<rparr>) it)"
    by (simp add: playHand_hit)
  show "(playHit rnd G hand = Inl e \<longleftrightarrow> dealCrd rnd G (cards hand) = Inl e)"
    by (rule playHit_Inl)
  show "(calcScr hand < 17 \<and> deck G = [] \<and> disPile G = [] \<longrightarrow>
          dealerLoop rnd G hand = Inl SupplyExhausted)"
    by (simp add: dealerLoop_exhausted)
  show "(placeBets ints (reshufCheck rnd G) plyrs 0 = Inr (intsa, Gd, plyrsd)
          \<and> length (deck (reshufCheck rnd G)) + length (disPile (reshufCheck rnd G))
              < 2 * length plyrs + 2 \<longrightarrow>
          playRnd rnd ints inp G plyrs dealr = Inl SupplyExhausted)"
    using playRnd_short [of ints rnd G plyrs intsa Gd plyrsd inp dealr] by blast
qed

lemma prompt_10_6_noCards: "atPrompt (ann10 [mkCard ''10'' ''S'', mkCard ''6'' ''H'']) 0"
  by code_simp

lemma crowd_bets:
  "(case placeBets (replicate 30 10) twos crowd 0 of Inl e \<Rightarrow> False | Inr r \<Rightarrow> True)"
  by code_simp

lemma crowd_table:
  "length (deck twos) = 60" "disPile twos = []" "length crowd = 30" "dropBroke crowd = crowd"
  "resetDealer twos dealer0 = (twos, dealer0)"
  by code_simp+

theorem draw_or_exhausted_witness:
  "dealCrd rnd0 (noCards\<lparr>deck := [mkCard ''5'' ''C'', mkCard ''K'' ''D'']\<rparr>) []
     = Inr (noCards\<lparr>deck := [mkCard ''K'' ''D'']\<rparr>, [mkCard ''5'' ''C''])
   \<and> dealCrd rnd0 (noCards\<lparr>disPile := [mkCard ''5'' ''C'']\<rparr>) []
       = Inr (noCards\<lparr>nshuf := 1\<rparr>, [mkCard ''5'' ''C''])
   \<and> dealCrd rnd0 noCards [] = Inl SupplyExhausted
   \<and> hdlLoop rnd0 [''h''] noCards (ann10 [mkCard ''10'' ''S'', mkCard ''6'' ''H'']) 0
       = Inl SupplyExhausted
   \<and> dealerLoop rnd0 noCards (mkHand [mkCard ''10'' ''S'', mkCard ''6'' ''H''] 0) = Inl SupplyExhausted
   \<and> playRnd rnd0 (replicate 30 10) [] twos crowd dealer0 = Inl SupplyExhausted
   \<and> tryRound rnd0 (replicate 30 10) [] twos crowd dealer0 = CriticalError"
proof (intro conjI)
  show "dealCrd rnd0 (noCards\<lparr>deck := [mkCard ''5'' ''C'', mkCard ''K'' ''D'']\<rparr>) []
     = Inr (noCards\<lparr>deck := [mkCard ''K'' ''D'']\<rparr>, [mkCard ''5'' ''C''])"
    using draw_or_exhausted [where G = "noCards\<lparr>deck := [mkCard ''5'' ''C'', mkCard ''K'' ''D'']\<rparr>"
        and rnd = rnd0 and trgLst = "[]",
        THEN conjunct1]
    by simp
  show "dealCrd rnd0 (noCards\<lparr>disPile := [mkCard ''5'' ''C'']\<rparr>) []
       = Inr (noCards\<lparr>nshuf := 1\<rparr>, [mkCard ''5'' ''C''])"
    using draw_or_exhausted [where G = "noCards\<lparr>disPile := [mkCard ''5'' ''C'']\<rparr>"
        and rnd = rnd0 and trgLst = "[]",
        THEN conjunct2, THEN conjunct1]
    by (auto simp: noCards_def)
  show "dealCrd rnd0 noCards [] = Inl SupplyExhausted"
    using draw_or_exhausted [where G = noCards and rnd = rnd0 and trgLst = "[]",
        THEN conjunct2, THEN conjunct2, THEN conjunct1]
    by (simp add: noCards_def)
  have "dealCrd rnd0 noCards (cards (hands (ann10 [mkCard ''10'' ''S'', mkCard ''6'' ''H'']) ! 0))
        = Inl SupplyExhausted"
    by (simp add: dealCrd_exhausted noCards_def)
  then show "hdlLoop rnd0 [''h''] noCards (ann10 [mkCard ''10'' ''S'', mkCard ''6'' ''H'']) 0
       = Inl SupplyExhausted"
    using draw_or_exhausted [where G = noCards and rnd = rnd0
        and p = "ann10 [mkCard ''10'' ''S'', mkCard ''6'' ''H'']" and it = 0
        and raw = "''h''" and rest = "[]" and e = SupplyExhausted,
        THEN conjunct2, THEN conjunct2, THEN conjunct2, THEN conjunct2, THEN conjunct2,
        THEN conjunct2, THEN conjunct2, THEN conjunct2, THEN conjunct2, THEN conjunct2,
        THEN conjunct2, THEN conjunct2, THEN conjunct2, THEN conjunct2, THEN conjunct2,
        THEN conjunct2, THEN conjunct2, THEN conjunct1]
      prompt_10_6_noCards
    by (simp add: toupper_examples)
  show "dealerLoop rnd0 noCards (mkHand [mkCard ''10'' ''S'', mkCard ''6'' ''H''] 0) = Inl SupplyExhausted"
    using draw_or_exhausted [where G = noCards and rnd = rnd0
        and hand = "mkHand [mkCard ''10'' ''S'', mkCard ''6'' ''H''] 0",
        THEN conjunct2, THEN conjunct2, THEN conjunct2, THEN conjunct2, THEN conjunct2,
        THEN conjunct2, THEN conjunct2, THEN conjunct2, THEN conjunct2, THEN conjunct2,
        THEN conjunct2, THEN conjunct2, THEN conjunct2, THEN conjunct2, THEN conjunct2,
        THEN conjunct2, THEN conjunct2, THEN conjunct2, THEN conjunct2, THEN conjunct2,
        THEN conjunct2, THEN conjunct2, THEN conjunct1]
    by (simp add: noCards_def score_10_6)
  obtain intsa Gd plyrsd where
    b: "placeBets (replicate 30 10) twos crowd 0 = Inr (intsa, Gd, plyrsd)"
    using crowd_bets by (cases "placeBets (replicate 30 10) twos crowd 0") auto
  have r: "reshufCheck rnd0 twos = twos" by (simp add: reshufCheck_def crowd_table)
  show p: "playRnd rnd0 (replicate 30 10) [] twos crowd dealer0 = Inl SupplyExhausted"
    using draw_or_exhausted [where G = twos and rnd = rnd0 and ints = "replicate 30 10"
        and plyrs = crowd and intsa = intsa and Gd = Gd and plyrsd = plyrsd and inp = "[]"
        and dealr = dealer0,
        THEN conjunct2, THEN conjunct2, THEN conjunct2, THEN conjunct2, THEN conjunct2,
        THEN conjunct2, THEN conjunct2, THEN conjunct2, THEN conjunct2, THEN conjunct2,
        THEN conjunct2, THEN conjunct2, THEN conjunct2, THEN conjunct2, THEN conjunct2,
        THEN conjunct2, THEN conjunct2, THEN conjunct2, THEN conjunct2, THEN conjunct2,
        THEN conjunct2, THEN conjunct2, THEN conjunct2]
      b
    by (simp add: r crowd_table)
  show "tryRound rnd0 (replicate 30 10) [] twos crowd dealer0 = CriticalError"
    using draw_or_exhausted [where G = twos and rnd = rnd0 and ints = "replicate 30 10"
        and plyrs = crowd and inp = "[]" and dealr = dealer0,
        THEN conjunct2, THEN conjunct2, THEN conjunct2, THEN conjunct2, THEN conjunct2,
        THEN conjunct2, THEN conjunct2, THEN conjunct2, THEN conjunct1]
      p
    by (simp add: crowd_table) (simp add: crowd_def)
qed

end
